theory Spec2Isabelle
  imports Main "HOL-Library.Word" "HOL-Library.Sublist"
begin

section \<open>Bytes, errors and constants\<close>

text \<open>
  A \<open>Uint8Array\<close> is a list of 8-bit words. JavaScript numbers are doubles; every
  number the handlers compute (lengths, offsets below \<open>2^34\<close>, counters, millisecond
  timestamps) is an integer that a double represents exactly, so they are modelled as
  \<open>nat\<close> or \<open>int\<close> without wrap-around. An exception thrown by the runtime is the
  \<open>Inl\<close> of a sum.
\<close>

type_synonym byte = "8 word"
type_synonym bytes = "byte list"

datatype js_error = TimeoutError | RangeError | TypeError | OtherError

definition MAX_CRX_SIZE :: nat where
  "MAX_CRX_SIZE = 20 * 1024 * 1024"

section \<open>The container parser (\<open>stripCrxHeader\<close>)\<close>

text \<open>\<open>buf[i]\<close> on a typed array: \<open>undefined\<close> (here \<open>None\<close>) beyond the end, never a throw.\<close>

definition at :: "bytes \<Rightarrow> nat \<Rightarrow> byte option" where
  "at buf i = (if i < length buf then Some (buf ! i) else None)"

text \<open>
  \<open>view.getUint32(off, true)\<close>: the little-endian 32-bit value at \<open>off\<close>; the
  \<open>DataView\<close> throws a \<open>RangeError\<close> when the four bytes do not lie inside the view.
\<close>

definition getUint32 :: "bytes \<Rightarrow> nat \<Rightarrow> js_error + nat" where
  "getUint32 buf off =
     (if off + 4 \<le> length buf
      then Inr (unat (buf ! off) + 256 * unat (buf ! (off + 1))
                + 65536 * unat (buf ! (off + 2)) + 16777216 * unat (buf ! (off + 3)))
      else Inl RangeError)"

text \<open>\<open>buf.subarray(i)\<close>: the view from \<open>i\<close> (clamped to the length) to the end.\<close>

definition subarray :: "bytes \<Rightarrow> nat \<Rightarrow> bytes" where
  "subarray buf i = drop i buf"

text \<open>The fallback loop \<open>for (let i = 0; i < Math.min(buf.byteLength, 1024); i++)\<close>.\<close>

function scanZip :: "bytes \<Rightarrow> nat \<Rightarrow> bytes option" where
  "scanZip buf i =
     (if i < min (length buf) 1024
      then (if at buf i = Some 0x50 \<and> at buf (i + 1) = Some 0x4b
               \<and> at buf (i + 2) = Some 0x03 \<and> at buf (i + 3) = Some 0x04
            then Some (subarray buf i)
            else scanZip buf (i + 1))
      else None)"
  by pat_completeness auto
termination
  by (relation "measure (\<lambda>(buf, i). min (length buf) 1024 - i)") auto

declare scanZip.simps [simp del]

text \<open>The shared tail of both versions: \<open>if (zipOffset < buf.byteLength) ... return null\<close>.\<close>

definition zipAt :: "bytes \<Rightarrow> nat \<Rightarrow> bytes option" where
  "zipAt buf zipOffset =
     (if zipOffset < length buf then Some (subarray buf zipOffset) else None)"

text \<open>
  \<open>stripCrxHeader\<close> returns \<open>Inr (Some zip)\<close> for a sub-range, \<open>Inr None\<close> for
  \<open>null\<close>, and \<open>Inl e\<close> when a \<open>getUint32\<close> throws.
\<close>

definition stripCrxHeader :: "bytes \<Rightarrow> js_error + bytes option" where
  "stripCrxHeader buf =
     (if at buf 0 = Some 0x43 \<and> at buf 1 = Some 0x72
         \<and> at buf 2 = Some 0x32 \<and> at buf 3 = Some 0x34
      then (case getUint32 buf 4 of
              Inl e \<Rightarrow> Inl e
            | Inr version \<Rightarrow>
                if version = 3
                then (case getUint32 buf 8 of
                        Inl e \<Rightarrow> Inl e
                      | Inr headerSize \<Rightarrow> Inr (zipAt buf (12 + headerSize)))
                else if version = 2
                then (case getUint32 buf 8 of
                        Inl e \<Rightarrow> Inl e
                      | Inr pkLen \<Rightarrow>
                          (case getUint32 buf 12 of
                             Inl e \<Rightarrow> Inl e
                           | Inr sigLen \<Rightarrow> Inr (zipAt buf (16 + pkLen + sigLen))))
                else Inr None)
      else Inr (scanZip buf 0))"

text \<open>The synthetic buffers of the round-trip property: the magic and \<open>LE32\<close>.\<close>

definition magic :: bytes where
  "magic = [0x43, 0x72, 0x32, 0x34]"

definition LE32 :: "nat \<Rightarrow> bytes" where
  "LE32 n = [of_nat (n mod 256), of_nat (n div 256 mod 256),
             of_nat (n div 65536 mod 256), of_nat (n div 16777216 mod 256)]"

definition crx3 :: "bytes \<Rightarrow> bytes \<Rightarrow> bytes" where
  "crx3 header payload = magic @ LE32 3 @ LE32 (length header) @ header @ payload"

definition crx2 :: "bytes \<Rightarrow> bytes \<Rightarrow> bytes \<Rightarrow> bytes" where
  "crx2 pk sig payload =
     magic @ LE32 2 @ LE32 (length pk) @ LE32 (length sig) @ pk @ sig @ payload"

section \<open>The rate limiter (\<open>rateMap\<close>, \<open>isRateLimited\<close>, the periodic cleanup)\<close>

text \<open>
  Each route module owns one \<open>rateMap\<close>. \<open>Date.now()\<close> is a parameter: the
  millisecond clock reading at the call. The function mutates the map; the model returns
  the new map beside the result.
\<close>

record entry =
  count :: nat
  resetAt :: int

type_synonym rate_map = "string \<rightharpoonup> entry"

definition RATE_WINDOW_MS :: int where
  "RATE_WINDOW_MS = 60000"

definition RATE_LIMIT :: nat where
  "RATE_LIMIT = 5"

definition isRateLimited :: "int \<Rightarrow> string \<Rightarrow> rate_map \<Rightarrow> bool \<times> rate_map" where
  "isRateLimited now ip rateMap =
     (case rateMap ip of
        None \<Rightarrow> (False, rateMap(ip \<mapsto> \<lparr>count = 1, resetAt = now + RATE_WINDOW_MS\<rparr>))
      | Some e \<Rightarrow>
          if now > resetAt e
          then (False, rateMap(ip \<mapsto> \<lparr>count = 1, resetAt = now + RATE_WINDOW_MS\<rparr>))
          else (count e + 1 > RATE_LIMIT, rateMap(ip \<mapsto> e\<lparr>count := count e + 1\<rparr>)))"

text \<open>The body of the \<open>setInterval\<close> callback, run at clock reading \<open>now\<close>.\<close>

definition cleanup :: "int \<Rightarrow> rate_map \<Rightarrow> rate_map" where
  "cleanup now rateMap =
     (\<lambda>ip. case rateMap ip of
             None \<Rightarrow> None
           | Some e \<Rightarrow> if now > resetAt e then None else Some e)"

text \<open>
  What can happen to one module's map: a check for some caller key, or a cleanup run,
  each at its own clock reading. \<open>run\<close> plays a sequence of them and collects the
  result of every check (\<open>None\<close> for a cleanup).
\<close>

datatype event = Check string int | Cleanup int

fun step :: "event \<Rightarrow> rate_map \<Rightarrow> bool option \<times> rate_map" where
  "step (Check ip now) m = (Some (fst (isRateLimited now ip m)), snd (isRateLimited now ip m))"
| "step (Cleanup now) m = (None, cleanup now m)"

fun run :: "event list \<Rightarrow> rate_map \<Rightarrow> bool option list \<times> rate_map" where
  "run [] m = ([], m)"
| "run (ev # evs) m =
     (fst (step ev m) # fst (run evs (snd (step ev m))), snd (run evs (snd (step ev m))))"

text \<open>How many checks of \<open>ip\<close> a sequence holds.\<close>

fun checksOf :: "string \<Rightarrow> event list \<Rightarrow> nat" where
  "checksOf ip [] = 0"
| "checksOf ip (Check k now # evs) = (if k = ip then 1 else 0) + checksOf ip evs"
| "checksOf ip (Cleanup now # evs) = checksOf ip evs"

text \<open>
  An event stays inside the window that ends at \<open>r\<close> for \<open>ip\<close>: a check of \<open>ip\<close>
  or a cleanup run happens at a clock reading that has not passed \<open>r\<close>; checks of other
  keys are free.
\<close>

fun inWindow :: "string \<Rightarrow> int \<Rightarrow> event \<Rightarrow> bool" where
  "inWindow ip r (Check k now) = (k \<noteq> ip \<or> now \<le> r)"
| "inWindow ip r (Cleanup now) = (now \<le> r)"

section \<open>Strings: identifier test, caller key, \<open>parseInt\<close>, \<open>toString\<close>\<close>

text \<open>
  The identifier, the header values and the URLs are strings of 8-bit characters, read as
  Latin-1: the handlers only compare their characters with ASCII ranges and never change
  them. The display-name hint, which the handler lowercases, is a list of UTF-16 code
  units; it is modelled with the file name below.
\<close>

definition code :: "char \<Rightarrow> nat" where
  "code c = of_char c"

definition lower_az :: "char \<Rightarrow> bool" where
  "lower_az c = (97 \<le> code c \<and> code c \<le> 122)"

definition upper_AZ :: "char \<Rightarrow> bool" where
  "upper_AZ c = (65 \<le> code c \<and> code c \<le> 90)"

definition digit_09 :: "char \<Rightarrow> bool" where
  "digit_09 c = (48 \<le> code c \<and> code c \<le> 57)"

text \<open>\<open>/^[a-z]{32}$/.test(id)\<close>, the test of both route handlers (no \<open>i\<close> flag).\<close>

definition validId :: "string \<Rightarrow> bool" where
  "validId ident = (length ident = 32 \<and> list_all lower_az ident)"

text \<open>White space and line terminators that \<open>trim\<close> and \<open>parseInt\<close> skip.\<close>

definition js_space :: "char \<Rightarrow> bool" where
  "js_space c = (code c \<in> {9, 10, 11, 12, 13, 32, 160})"

definition trim :: "string \<Rightarrow> string" where
  "trim s = rev (dropWhile js_space (rev (dropWhile js_space s)))"

text \<open>
  \<open>request.headers.get("x-forwarded-for")?.split(",")[0]?.trim() || "unknown"\<close>.
\<close>

definition callerKey :: "string option \<Rightarrow> string" where
  "callerKey xff =
     (case xff of
        None \<Rightarrow> ''unknown''
      | Some h \<Rightarrow>
          (let k = trim (takeWhile (\<lambda>c. c \<noteq> CHR '','') h)
           in if k = [] then ''unknown'' else k))"

text \<open>
  \<open>parseInt(s, 10)\<close>: skip white space, one optional sign, then the longest run of
  decimal digits; \<open>NaN\<close> (here \<open>None\<close>) when there is no digit.
\<close>

definition digitsValue :: "string \<Rightarrow> int" where
  "digitsValue ds = foldl (\<lambda>a c. 10 * a + int (code c - 48)) 0 ds"

definition parseInt :: "string \<Rightarrow> int option" where
  "parseInt s =
     (let t = dropWhile js_space s;
          neg = (t \<noteq> [] \<and> hd t = CHR ''-'');
          u = (if t \<noteq> [] \<and> (hd t = CHR ''-'' \<or> hd t = CHR ''+'') then tl t else t);
          ds = takeWhile digit_09 u
      in if ds = [] then None
         else Some (if neg then - digitsValue ds else digitsValue ds))"

text \<open>A comparison with \<open>NaN\<close> is false.\<close>

definition js_gt :: "int option \<Rightarrow> int \<Rightarrow> bool" where
  "js_gt x n = (case x of None \<Rightarrow> False | Some v \<Rightarrow> v > n)"

text \<open>\<open>n.toString()\<close> for a non-negative integer.\<close>

function toString :: "nat \<Rightarrow> string" where
  "toString n =
     (if n < 10 then [char_of (48 + n)]
      else toString (n div 10) @ [char_of (48 + n mod 10)])"
  by pat_completeness auto
termination
  by (relation "measure (\<lambda>n. n)") auto

declare toString.simps [simp del]

section \<open>The size limiter of the raw-container endpoint\<close>

text \<open>
  The \<open>TransformStream\<close> holds the counter \<open>bytesRead\<close>. \<open>transform\<close> is called
  once per upstream chunk, in order; \<open>controller.enqueue\<close> appends the chunk to what the
  readable side hands to the caller, \<open>controller.error\<close> puts the stream into its
  errored state, after which no further chunk is transformed.
\<close>

record limiter =
  bytesRead :: nat
  enqueued :: "bytes list"
  errored :: bool

definition limiter0 :: limiter where
  "limiter0 = \<lparr>bytesRead = 0, enqueued = [], errored = False\<rparr>"

definition transform :: "bytes \<Rightarrow> limiter \<Rightarrow> limiter" where
  "transform chunk l =
     (let l' = l\<lparr>bytesRead := bytesRead l + length chunk\<rparr>
      in if bytesRead l' > MAX_CRX_SIZE
         then l'\<lparr>errored := True\<rparr>
         else l'\<lparr>enqueued := enqueued l' @ [chunk]\<rparr>)"

fun pipeThrough :: "bytes list \<Rightarrow> limiter \<Rightarrow> limiter" where
  "pipeThrough [] l = l"
| "pipeThrough (chunk # chunks) l =
     (if errored l then l else pipeThrough chunks (transform chunk l))"

section \<open>The file name of the derived-archive endpoint\<close>

text \<open>
  The display-name hint is any JavaScript string: a list of UTF-16 code units. \<open>units\<close>
  writes an ASCII literal as code units; \<open>chars\<close> reads a string of ASCII code units
  back as characters (it is applied to the sanitized name only, which holds nothing but
  the units of \<open>a\<close> to \<open>z\<close>, \<open>0\<close> to \<open>9\<close> and the hyphen).
\<close>

type_synonym unit16 = "16 word"
type_synonym ustring = "unit16 list"

definition units :: "string \<Rightarrow> ustring" where
  "units s = map (\<lambda>c. of_nat (of_char c)) s"

definition chars :: "ustring \<Rightarrow> string" where
  "chars s = map (\<lambda>u. char_of (unat u)) s"

definition hyphen :: unit16 where
  "hyphen = 0x2D"

text \<open>
  \<open>rawName.toLowerCase()\<close>. The Unicode case tables of the runtime are not part of the
  repository. On a string whose code units are all below \<open>0x100\<close> (Latin-1) the result
  is known and written out: each unit is mapped on its own, the ASCII capitals and the
  capitals \<open>U+00C0\<close> to \<open>U+00DE\<close> (without the multiplication sign \<open>U+00D7\<close>) moving up
  by \<open>0x20\<close>. On every other string the result is whatever the runtime's tables give,
  taken as the parameter \<open>lc\<close>: it need not map unit by unit nor keep the length
  (\<open>U+212A\<close> becomes \<open>k\<close>, \<open>U+0130\<close> becomes two units).
\<close>

definition lowerLatin1 :: "unit16 \<Rightarrow> unit16" where
  "lowerLatin1 u =
     (if (0x41 \<le> u \<and> u \<le> 0x5A) \<or> (0xC0 \<le> u \<and> u \<le> 0xDE \<and> u \<noteq> 0xD7)
      then u + 0x20 else u)"

definition toLowerCase :: "(ustring \<Rightarrow> ustring) \<Rightarrow> ustring \<Rightarrow> ustring" where
  "toLowerCase lc s = (if list_all (\<lambda>u. u < 0x100) s then map lowerLatin1 s else lc s)"

text \<open>The class \<open>[a-z0-9]\<close>.\<close>

definition az09 :: "unit16 \<Rightarrow> bool" where
  "az09 u = ((0x61 \<le> u \<and> u \<le> 0x7A) \<or> (0x30 \<le> u \<and> u \<le> 0x39))"

text \<open>
  \<open>.replace(/[^a-z0-9]+/g, "-")\<close>: scanning from the left, every maximal run of code
  units outside the class is replaced by one hyphen.
\<close>

function replaceRuns :: "ustring \<Rightarrow> ustring" where
  "replaceRuns [] = []"
| "replaceRuns (c # cs) =
     (if az09 c then c # replaceRuns cs
      else hyphen # replaceRuns (dropWhile (\<lambda>d. \<not> az09 d) cs))"
  by pat_completeness auto
termination
  by (relation "measure length") (auto simp: length_dropWhile_le le_imp_less_Suc)

declare replaceRuns.simps [simp del]

text \<open>
  \<open>.replace(/^-|-$/g, "")\<close>: without the \<open>m\<close> flag the first alternative matches
  only a hyphen at index 0 and the second only a hyphen at the last index, so at most one
  hyphen goes at each end.
\<close>

definition replaceEnds :: "ustring \<Rightarrow> ustring" where
  "replaceEnds s =
     (let t = (if s \<noteq> [] \<and> hd s = hyphen then tl s else s)
      in if t \<noteq> [] \<and> last t = hyphen then butlast t else t)"

definition safeName :: "(ustring \<Rightarrow> ustring) \<Rightarrow> ustring \<Rightarrow> ustring" where
  "safeName lc rawName = replaceEnds (replaceRuns (toLowerCase lc rawName))"

text \<open>\<open>rawName = searchParams.get("name") || ""\<close>, then the template literals.\<close>

definition filename :: "(ustring \<Rightarrow> ustring) \<Rightarrow> ustring option \<Rightarrow> string \<Rightarrow> string" where
  "filename lc name ident =
     (let rawName = (case name of None \<Rightarrow> [] | Some n \<Rightarrow> n);
          sn = safeName lc rawName
      in if sn \<noteq> [] then chars sn @ ''-'' @ ident @ ''.zip'' else ident @ ''.zip'')"

text \<open>
  The same name, following the words of the specification and not the regular
  expressions: in the lowercased hint, collapse every run of non-alphanumeric characters
  to a single hyphen, then trim all leading and trailing hyphens. Which characters count
  as alphanumeric is the parameter \<open>P\<close>.
\<close>

function collapseRuns :: "(unit16 \<Rightarrow> bool) \<Rightarrow> ustring \<Rightarrow> ustring" where
  "collapseRuns P [] = []"
| "collapseRuns P (c # cs) =
     (if P c then c # collapseRuns P cs
      else hyphen # collapseRuns P (dropWhile (\<lambda>d. \<not> P d) cs))"
  by pat_completeness auto
termination
  by (relation "measure (\<lambda>(P, s). length s)") (auto simp: length_dropWhile_le le_imp_less_Suc)

declare collapseRuns.simps [simp del]

definition trimHyphens :: "ustring \<Rightarrow> ustring" where
  "trimHyphens s =
     rev (dropWhile (\<lambda>c. c = hyphen) (rev (dropWhile (\<lambda>c. c = hyphen) s)))"

definition sanitizedName :: "(unit16 \<Rightarrow> bool) \<Rightarrow> ustring \<Rightarrow> ustring" where
  "sanitizedName P lowered = trimHyphens (collapseRuns P lowered)"

text \<open>
  A second reading of the same words, with no hyphen handling at all: the maximal
  alphanumeric words of a string, and a list of words joined by single hyphens.
\<close>

function wordsOf :: "(unit16 \<Rightarrow> bool) \<Rightarrow> ustring \<Rightarrow> ustring list" where
  "wordsOf P [] = []"
| "wordsOf P (c # cs) =
     (if P c
      then takeWhile P (c # cs) # wordsOf P (dropWhile P cs)
      else wordsOf P cs)"
  by pat_completeness auto
termination
  by (relation "measure (\<lambda>(P, s). length s)") (auto simp: length_dropWhile_le le_imp_less_Suc)

declare wordsOf.simps [simp del]

fun joinHyphen :: "ustring list \<Rightarrow> ustring" where
  "joinHyphen [] = []"
| "joinHyphen [w] = w"
| "joinHyphen (w # ws) = w @ hyphen # joinHyphen ws"

text \<open>
  "Alphanumeric" as the word is commonly read, a letter or a decimal digit of any
  script. Below \<open>0x100\<close> these are the ASCII letters and digits, the ordinal indicators
  \<open>U+00AA\<close> and \<open>U+00BA\<close>, the micro sign \<open>U+00B5\<close> and the letters \<open>U+00C0\<close> to
  \<open>U+00FF\<close> (without the signs \<open>U+00D7\<close> and \<open>U+00F7\<close>); from \<open>0x100\<close> on the Unicode
  tables decide, taken as the parameter \<open>beyond\<close>.
\<close>

definition letterOrDigit :: "(unit16 \<Rightarrow> bool) \<Rightarrow> unit16 \<Rightarrow> bool" where
  "letterOrDigit beyond u =
     (if u < 0x100
      then (0x30 \<le> u \<and> u \<le> 0x39) \<or> (0x41 \<le> u \<and> u \<le> 0x5A) \<or> (0x61 \<le> u \<and> u \<le> 0x7A)
           \<or> u = 0xAA \<or> u = 0xB5 \<or> u = 0xBA
           \<or> (0xC0 \<le> u \<and> u \<noteq> 0xD7 \<and> u \<noteq> 0xF7)
      else beyond u)"

section \<open>The two \<open>GET\<close> handlers\<close>

text \<open>
  The request as the handlers read it: the path parameter \<open>id\<close>, the
  \<open>x-forwarded-for\<close> header and the query parameter \<open>name\<close> (\<open>None\<close> for \<open>null\<close>).
\<close>

record request =
  req_id :: string
  req_forwardedFor :: "string option"
  req_name :: "ustring option"

text \<open>
  What \<open>fetch\<close> gives: it throws (a \<open>TimeoutError\<close> from the abort signal or another
  failure), or it resolves to a response with a status, a \<open>content-length\<close> header and
  a body. The body is \<open>None\<close> for \<open>null\<close>, else the chunks the upstream emits and how
  the stream ends (\<open>None\<close>: closed, \<open>Some e\<close>: failed with \<open>e\<close> after these chunks).
\<close>

record upstream =
  up_status :: nat
  up_contentLength :: "string option"
  up_body :: "(bytes list \<times> js_error option) option"

datatype fetched = Threw js_error | Responded upstream

text \<open>
  The \<open>error\<close> texts of the JSON bodies, in the order of the source:
  "Invalid extension ID", "Too many requests. Try again in a minute.",
  "Failed to fetch CRX file", "Extension file too large",
  "Could not parse CRX file (dash) invalid format", "No response body from upstream",
  "Upstream request timed out", "Failed to download CRX file".
\<close>

datatype message =
  InvalidExtensionId | TooManyRequests | FailedToFetch | FileTooLarge
  | CouldNotParse | NoResponseBody | UpstreamTimedOut | FailedToDownload

datatype stream_end = Closed | ExceededMaximumSize | UpstreamFailed js_error

datatype payload = Json message | Buffer bytes | Stream "bytes list" stream_end

record response =
  res_status :: nat
  res_headers :: "(string \<times> string) list"
  res_body :: payload

text \<open>
  What a handler does to the world, in order: the call of \<open>isRateLimited\<close>, the
  \<open>fetch\<close> of a URL, and the consumption of the upstream body (\<open>arrayBuffer()\<close> or the
  pipe to the caller).
\<close>

datatype effect = RateCheck string | Fetch string | ReadBody

definition json :: "message \<Rightarrow> nat \<Rightarrow> (string \<times> string) list \<Rightarrow> response" where
  "json msg st hs = \<lparr>res_status = st, res_headers = hs, res_body = Json msg\<rparr>"

text \<open>
  \<open>NextResponse.json(body, {status})\<close> with a status that is not a constant of the
  source: the \<open>Response\<close> constructor of the Fetch standard throws a \<open>RangeError\<close> for a
  status outside 200..599 and a \<open>TypeError\<close> for a body together with a null-body
  status (204, 205, 304; 101 and 103 are out of range already).
\<close>

definition NextResponse_json :: "message \<Rightarrow> nat \<Rightarrow> js_error + response" where
  "NextResponse_json msg st =
     (if st < 200 \<or> 599 < st then Inl RangeError
      else if st = 204 \<or> st = 205 \<or> st = 304 then Inl TypeError
      else Inr (json msg st []))"

text \<open>The \<open>catch (err)\<close> block of both handlers.\<close>

definition catch :: "js_error \<Rightarrow> response" where
  "catch err = json (if err = TimeoutError then UpstreamTimedOut else FailedToDownload) 502 []"

text \<open>\<open>response.ok\<close>.\<close>

definition ok :: "upstream \<Rightarrow> bool" where
  "ok up = (200 \<le> up_status up \<and> up_status up \<le> 299)"

text \<open>The \<open>if (!response.ok)\<close> branch, inside the \<open>try\<close>.\<close>

definition upstreamError :: "upstream \<Rightarrow> response" where
  "upstreamError up =
     (case NextResponse_json FailedToFetch (up_status up) of
        Inl e \<Rightarrow> catch e
      | Inr r \<Rightarrow> r)"

text \<open>\<open>CRX_URL_TEMPLATE.replace("{ID}", id)\<close>.\<close>

definition crxUrl :: "string \<Rightarrow> string" where
  "crxUrl ident =
     ''https://clients2.google.com/service/update2/crx?response=redirect&prodversion=131.0.0.0&acceptformat=crx2,crx3&x=id%3D''
     @ ident @ ''%26uc''"

text \<open>\<open>await response.arrayBuffer()\<close>: all bytes of the body, or the failure of the read.\<close>

definition arrayBuffer :: "upstream \<Rightarrow> js_error + bytes" where
  "arrayBuffer up =
     (case up_body up of
        None \<Rightarrow> Inr []
      | Some (chunks, None) \<Rightarrow> Inr (concat chunks)
      | Some (chunks, Some e) \<Rightarrow> Inl e)"

definition quoted :: "string \<Rightarrow> string" where
  "quoted s = [CHR 0x22] @ s @ [CHR 0x22]"

subsection \<open>The derived-archive endpoint (\<open>api/crx/[id]/route.ts\<close>)\<close>

text \<open>
  The handler after \<open>response.ok\<close>, from \<open>arrayBuffer()\<close> to the ZIP response. The
  parameter \<open>lc\<close> is the runtime's \<open>toLowerCase\<close> beyond Latin-1, as in \<open>toLowerCase\<close>.
\<close>

definition deliverArchive :: "(ustring \<Rightarrow> ustring) \<Rightarrow> request \<Rightarrow> upstream \<Rightarrow> response" where
  "deliverArchive lc req up =
     (case arrayBuffer up of
        Inl e \<Rightarrow> catch e
      | Inr crxBuf \<Rightarrow>
          if length crxBuf > MAX_CRX_SIZE then json FileTooLarge 413 []
          else (case stripCrxHeader crxBuf of
                  Inl e \<Rightarrow> catch e
                | Inr None \<Rightarrow> json CouldNotParse 502 []
                | Inr (Some zipData) \<Rightarrow>
                    \<lparr>res_status = 200,
                     res_headers =
                       [(''Content-Type'', ''application/zip''),
                        (''Content-Disposition'',
                           ''attachment; filename='' @ quoted (filename lc (req_name req) (req_id req))),
                        (''Content-Length'', toString (length zipData)),
                        (''Cache-Control'', ''private, no-store'')],
                     res_body = Buffer zipData\<rparr>))"

text \<open>
  The whole handler. Besides the request it reads the clock (\<open>now\<close>), the network
  (\<open>fetch\<close>), the module's rate map and, for the file name only, the runtime's case
  tables (\<open>lc\<close>).
\<close>

definition GET_archive ::
  "(ustring \<Rightarrow> ustring) \<Rightarrow> request \<Rightarrow> int \<Rightarrow> (string \<Rightarrow> fetched) \<Rightarrow> rate_map
     \<Rightarrow> response \<times> effect list \<times> rate_map" where
  "GET_archive lc req now fetch rateMap =
     (if \<not> validId (req_id req) then (json InvalidExtensionId 400 [], [], rateMap)
      else
        let ip = callerKey (req_forwardedFor req);
            limited = fst (isRateLimited now ip rateMap);
            rateMap' = snd (isRateLimited now ip rateMap)
        in if limited
           then (json TooManyRequests 429 [(''Retry-After'', ''60'')], [RateCheck ip], rateMap')
           else
             let url = crxUrl (req_id req)
             in (case fetch url of
                   Threw e \<Rightarrow> (catch e, [RateCheck ip, Fetch url], rateMap')
                 | Responded up \<Rightarrow>
                     if \<not> ok up
                     then (upstreamError up, [RateCheck ip, Fetch url], rateMap')
                     else (deliverArchive lc req up, [RateCheck ip, Fetch url, ReadBody], rateMap')))"

subsection \<open>The raw-container endpoint (the second route handler)\<close>

text \<open>
  The handler after \<open>response.ok\<close>: the \<open>content-length\<close> test, the \<open>null\<close> body test,
  then the body piped through the limiter. The caller's stream ends with the limiter's
  error when the limiter tripped, else as the upstream's stream ends.
\<close>

definition contentLengthOf :: "upstream \<Rightarrow> int option" where
  "contentLengthOf up =
     parseInt (case up_contentLength up of
                 None \<Rightarrow> ''0''
               | Some h \<Rightarrow> if h = [] then ''0'' else h)"

definition limited_stream :: "bytes list \<Rightarrow> js_error option \<Rightarrow> payload" where
  "limited_stream chunks fin =
     (let l = pipeThrough chunks limiter0
      in Stream (enqueued l)
           (if errored l then ExceededMaximumSize
            else case fin of None \<Rightarrow> Closed | Some e \<Rightarrow> UpstreamFailed e))"

definition deliverRaw :: "request \<Rightarrow> upstream \<Rightarrow> response \<times> effect list" where
  "deliverRaw req up =
     (let contentLength = contentLengthOf up
      in if js_gt contentLength (int MAX_CRX_SIZE) then (json FileTooLarge 413 [], [])
         else (case up_body up of
                 None \<Rightarrow> (json NoResponseBody 502 [], [])
               | Some (chunks, fin) \<Rightarrow>
                   (\<lparr>res_status = 200,
                     res_headers =
                       [(''Content-Type'', ''application/x-chrome-extension''),
                        (''Content-Disposition'',
                           ''attachment; filename='' @ quoted (req_id req @ ''.crx'')),
                        (''Cache-Control'', ''private, no-store'')]
                       @ (if js_gt contentLength 0
                          then [(''Content-Length'', toString (nat (the contentLength)))]
                          else []),
                     res_body = limited_stream chunks fin\<rparr>,
                    [ReadBody])))"

definition GET_raw ::
  "request \<Rightarrow> int \<Rightarrow> (string \<Rightarrow> fetched) \<Rightarrow> rate_map \<Rightarrow> response \<times> effect list \<times> rate_map" where
  "GET_raw req now fetch rateMap =
     (if \<not> validId (req_id req) then (json InvalidExtensionId 400 [], [], rateMap)
      else
        let ip = callerKey (req_forwardedFor req);
            limited = fst (isRateLimited now ip rateMap);
            rateMap' = snd (isRateLimited now ip rateMap)
        in if limited
           then (json TooManyRequests 429 [(''Retry-After'', ''60'')], [RateCheck ip], rateMap')
           else
             let url = crxUrl (req_id req)
             in (case fetch url of
                   Threw e \<Rightarrow> (catch e, [RateCheck ip, Fetch url], rateMap')
                 | Responded up \<Rightarrow>
                     if \<not> ok up
                     then (upstreamError up, [RateCheck ip, Fetch url], rateMap')
                     else (fst (deliverRaw req up),
                           [RateCheck ip, Fetch url] @ snd (deliverRaw req up),
                           rateMap')))"

section \<open>Properties of the container parser\<close>

lemma length_LE32: "length (LE32 n) = 4"
  by (simp add: LE32_def)

lemma length_magic: "length magic = 4"
  by (simp add: magic_def)

lemma LE32_value:
  "unat (LE32 n ! 0) + 256 * unat (LE32 n ! 1) + 65536 * unat (LE32 n ! 2)
     + 16777216 * unat (LE32 n ! 3) = n mod 2 ^ 32"
proof -
  have a: "n mod 4294967296 = 256 * (n div 256 mod 16777216) + n mod 256"
    using mod_mult2_eq [of n 256 16777216] by simp
  have b: "n div 256 mod 16777216 = 256 * (n div 65536 mod 65536) + n div 256 mod 256"
    using mod_mult2_eq [of "n div 256" 256 65536] by (simp add: div_mult2_eq [symmetric])
  have c: "n div 65536 mod 65536 = 256 * (n div 16777216 mod 256) + n div 65536 mod 256"
    using mod_mult2_eq [of "n div 65536" 256 256] by (simp add: div_mult2_eq [symmetric])
  have "n mod 256 + 256 * (n div 256 mod 256) + 65536 * (n div 65536 mod 256)
          + 16777216 * (n div 16777216 mod 256) = n mod 4294967296"
    unfolding a b c by simp
  then show ?thesis
    unfolding LE32_def by (simp add: unat_of_nat)
qed

text \<open>Reading back a field written by \<open>LE32\<close>, wherever it sits in the buffer.\<close>

lemma getUint32_LE32:
  "length pre = off \<Longrightarrow> getUint32 (pre @ LE32 n @ post) off = Inr (n mod 2 ^ 32)"
  using LE32_value [of n]
  by (simp add: getUint32_def nth_append length_LE32)

lemma crx3_magic:
  "at (crx3 header payload) 0 = Some 0x43" "at (crx3 header payload) 1 = Some 0x72"
  "at (crx3 header payload) 2 = Some 0x32" "at (crx3 header payload) 3 = Some 0x34"
  by (simp_all add: crx3_def magic_def at_def)

lemma crx2_magic:
  "at (crx2 pk sig payload) 0 = Some 0x43" "at (crx2 pk sig payload) 1 = Some 0x72"
  "at (crx2 pk sig payload) 2 = Some 0x32" "at (crx2 pk sig payload) 3 = Some 0x34"
  by (simp_all add: crx2_def magic_def at_def)

lemma stripCrxHeader_crx3:
  assumes "length header < 2 ^ 32"
  shows "stripCrxHeader (crx3 header payload) = Inr (if payload = [] then None else Some payload)"
proof -
  have v: "getUint32 (crx3 header payload) 4 = Inr 3"
    unfolding crx3_def
    using getUint32_LE32 [of magic 4 3 "LE32 (length header) @ header @ payload"]
    by (simp add: length_magic)
  have h: "getUint32 (crx3 header payload) 8 = Inr (length header)"
    unfolding crx3_def
    using getUint32_LE32 [of "magic @ LE32 3" 8 "length header" "header @ payload"] assms
    by (simp add: length_magic length_LE32)
  have z: "zipAt (crx3 header payload) (12 + length header)
             = (if payload = [] then None else Some payload)"
    by (simp add: zipAt_def subarray_def crx3_def length_magic length_LE32)
  show ?thesis
    unfolding stripCrxHeader_def using crx3_magic [of header payload] by (simp add: v h z)
qed

lemma stripCrxHeader_crx2:
  assumes "length pk < 2 ^ 32" and "length sig < 2 ^ 32"
  shows "stripCrxHeader (crx2 pk sig payload) = Inr (if payload = [] then None else Some payload)"
proof -
  have v: "getUint32 (crx2 pk sig payload) 4 = Inr 2"
    unfolding crx2_def
    using getUint32_LE32 [of magic 4 2 "LE32 (length pk) @ LE32 (length sig) @ pk @ sig @ payload"]
    by (simp add: length_magic)
  have p: "getUint32 (crx2 pk sig payload) 8 = Inr (length pk)"
    unfolding crx2_def
    using getUint32_LE32 [of "magic @ LE32 2" 8 "length pk" "LE32 (length sig) @ pk @ sig @ payload"]
      assms(1)
    by (simp add: length_magic length_LE32)
  have s: "getUint32 (crx2 pk sig payload) 12 = Inr (length sig)"
    unfolding crx2_def
    using getUint32_LE32 [of "magic @ LE32 2 @ LE32 (length pk)" 12 "length sig" "pk @ sig @ payload"]
      assms(2)
    by (simp add: length_magic length_LE32)
  have z: "zipAt (crx2 pk sig payload) (16 + length pk + length sig)
             = (if payload = [] then None else Some payload)"
    by (simp add: zipAt_def subarray_def crx2_def length_magic length_LE32)
  show ?thesis
    unfolding stripCrxHeader_def using crx2_magic [of pk sig payload] by (simp add: v p s z)
qed

text \<open>
  C1, as the code has it. For every header whose length fits the 32-bit field (0, 16 and
  4096 among them) and every payload, parsing the V3 buffer
  \<open>"Cr24" + LE32(3) + LE32(headerLen) + header + payload\<close> returns exactly the payload
  when the payload is not empty, and \<open>null\<close> when it is empty; likewise for the V2 buffer
  \<open>"Cr24" + LE32(2) + LE32(pkLen) + LE32(sigLen) + pk + sig + payload\<close> with any key and
  signature lengths, zero included.
\<close>

theorem stripCrxHeader_roundtrip:
  assumes "length header < 2 ^ 32" and "length pk < 2 ^ 32" and "length sig < 2 ^ 32"
  shows "stripCrxHeader (crx3 header payload) = Inr (if payload = [] then None else Some payload)
       \<and> stripCrxHeader (crx2 pk sig payload) = Inr (if payload = [] then None else Some payload)"
  using assms by (simp add: stripCrxHeader_crx3 stripCrxHeader_crx2)

theorem stripCrxHeader_roundtrip_witness:
  "length (replicate 16 (7 :: byte)) < 2 ^ 32 \<and> length ([] :: bytes) < 2 ^ 32
   \<and> length [1, 2, 3 :: byte] < 2 ^ 32
   \<and> stripCrxHeader (crx3 (replicate 16 7) [0x50, 0x4b, 0x03, 0x04])
       = Inr (Some [0x50, 0x4b, 0x03, 0x04])
   \<and> stripCrxHeader (crx2 [] [1, 2, 3] [0x50, 0x4b, 0x03, 0x04])
       = Inr (Some [0x50, 0x4b, 0x03, 0x04])"
  using stripCrxHeader_roundtrip
          [of "replicate 16 7" "[]" "[1, 2, 3]" "[0x50, 0x4b, 0x03, 0x04]"]
  by simp

text \<open>
  C1 as stated fails at the empty payload: for the V3 buffer with an empty header and an
  empty payload the parser returns \<open>null\<close>, not the (empty) payload.
\<close>

theorem stripCrxHeader_empty_payload_counterexample:
  "stripCrxHeader (magic @ LE32 3 @ LE32 0 @ [] @ []) = Inr None
   \<and> stripCrxHeader (magic @ LE32 3 @ LE32 0 @ [] @ []) \<noteq> Inr (Some [])"
  using stripCrxHeader_crx3 [of "[]" "[]"] by (simp add: crx3_def)

text \<open>
  Where the parser throws: only on a buffer that begins with the magic and has fewer than
  16 bytes. On every other buffer it returns a sub-range or \<open>null\<close>.
\<close>

lemma stripCrxHeader_throws_short:
  "stripCrxHeader buf = Inl e \<Longrightarrow>
     e = RangeError \<and> length buf < 16 \<and> at buf 0 = Some 0x43 \<and> at buf 1 = Some 0x72
       \<and> at buf 2 = Some 0x32 \<and> at buf 3 = Some 0x34"
  by (auto simp: stripCrxHeader_def getUint32_def split: if_splits sum.splits)

lemma stripCrxHeader_total_long:
  "16 \<le> length buf \<Longrightarrow> \<exists>r. stripCrxHeader buf = Inr r"
  using stripCrxHeader_throws_short [of buf] by (cases "stripCrxHeader buf") auto

text \<open>
  C7 fails on the code: a buffer that begins with the magic and ends before the fixed
  fields is not answered with \<open>null\<close>. \<open>getUint32\<close> is called without a length test and
  throws a \<open>RangeError\<close>: for the bare magic (4 bytes), for a V3 buffer that ends after
  the version (8 bytes) and for a V2 buffer that ends after the key length (12 bytes).
\<close>

theorem stripCrxHeader_short_header_throws:
  "stripCrxHeader [0x43, 0x72, 0x32, 0x34] = Inl RangeError
   \<and> stripCrxHeader [0x43, 0x72, 0x32, 0x34, 3, 0, 0, 0] = Inl RangeError
   \<and> stripCrxHeader [0x43, 0x72, 0x32, 0x34, 2, 0, 0, 0, 0, 0, 0, 0] = Inl RangeError"
  by (simp add: stripCrxHeader_def at_def getUint32_def)

section \<open>Properties of the rate limiter\<close>

lemma isRateLimited_other: "k \<noteq> ip \<Longrightarrow> snd (isRateLimited now ip m) k = m k"
  by (simp add: isRateLimited_def split: option.splits)

lemma isRateLimited_entry:
  "snd (isRateLimited now ip m) ip =
     Some (case m ip of
             None \<Rightarrow> \<lparr>count = 1, resetAt = now + RATE_WINDOW_MS\<rparr>
           | Some e \<Rightarrow> if now > resetAt e then \<lparr>count = 1, resetAt = now + RATE_WINDOW_MS\<rparr>
                       else e\<lparr>count := count e + 1\<rparr>)"
  by (simp add: isRateLimited_def split: option.splits)

lemma isRateLimited_result:
  "fst (isRateLimited now ip m) =
     (case m ip of None \<Rightarrow> False
      | Some e \<Rightarrow> if now > resetAt e then False else RATE_LIMIT < count e + 1)"
  by (simp add: isRateLimited_def split: option.splits)

lemma step_in_window:
  assumes "m ip = Some e" and "inWindow ip (resetAt e) ev"
  shows "snd (step ev m) ip = Some (e\<lparr>count := count e + checksOf ip [ev]\<rparr>)"
proof (cases ev)
  case (Check k now)
  then show ?thesis using assms
    by (cases "k = ip") (auto simp: isRateLimited_entry isRateLimited_other)
next
  case (Cleanup now)
  then show ?thesis using assms by (simp add: cleanup_def)
qed

lemma checksOf_Cons: "checksOf ip (ev # evs) = checksOf ip [ev] + checksOf ip evs"
  by (cases ev) simp_all

lemma run_in_window:
  assumes "m ip = Some e" and "list_all (inWindow ip (resetAt e)) evs"
  shows "snd (run evs m) ip = Some (e\<lparr>count := count e + checksOf ip evs\<rparr>)"
  using assms
proof (induction evs arbitrary: m e)
  case Nil
  then show ?case by simp
next
  case (Cons ev evs)
  let ?e = "e\<lparr>count := count e + checksOf ip [ev]\<rparr>"
  have s: "snd (step ev m) ip = Some ?e"
    using Cons.prems by (simp add: step_in_window)
  have "snd (run evs (snd (step ev m))) ip = Some (?e\<lparr>count := count ?e + checksOf ip evs\<rparr>)"
    using Cons.IH [of "snd (step ev m)" ?e] s Cons.prems by simp
  then show ?case
    by (simp add: checksOf_Cons [of ip ev evs] add.assoc)
qed

lemma run_append:
  "run (xs @ ys) m = (fst (run xs m) @ fst (run ys (snd (run xs m))), snd (run ys (snd (run xs m))))"
  by (induction xs arbitrary: m) simp_all

lemma length_run: "length (fst (run evs m)) = length evs"
  by (induction evs arbitrary: m) simp_all

lemma run_nth:
  assumes "j < length evs"
  shows "fst (run evs m) ! j = fst (step (evs ! j) (snd (run (take j evs) m)))"
proof -
  have "evs = take j evs @ evs ! j # drop (Suc j) evs"
    using assms by (simp add: id_take_nth_drop)
  then have "fst (run evs m) = fst (run (take j evs) m) @ fst (run (evs ! j # drop (Suc j) evs) (snd (run (take j evs) m)))"
    by (metis run_append fst_conv)
  moreover have "length (fst (run (take j evs) m)) = j"
    using assms by (simp add: length_run)
  ultimately show ?thesis
    by (simp add: nth_append)
qed

lemma checksOf_append: "checksOf ip (xs @ ys) = checksOf ip xs + checksOf ip ys"
  by (induction ip xs rule: checksOf.induct) simp_all

lemma checksOf_take_Suc:
  "j < length evs \<Longrightarrow> checksOf ip (take (Suc j) evs) = checksOf ip (take j evs) + checksOf ip [evs ! j]"
  by (simp add: take_Suc_conv_app_nth checksOf_append)

lemma check_in_window:
  assumes "m ip = Some e" and "list_all (inWindow ip (resetAt e)) evs"
      and "j < length evs" and "evs ! j = Check ip t"
  shows "fst (run evs m) ! j = Some (RATE_LIMIT < count e + checksOf ip (take (Suc j) evs))"
proof -
  have w: "list_all (inWindow ip (resetAt e)) (take j evs)"
    using assms(2) by (metis append_take_drop_id list_all_append)
  have st: "snd (run (take j evs) m) ip = Some (e\<lparr>count := count e + checksOf ip (take j evs)\<rparr>)"
    using run_in_window [of m ip e "take j evs"] assms(1) w by simp
  have "inWindow ip (resetAt e) (evs ! j)"
    using assms(2,3) by (simp add: list_all_length)
  then have t: "t \<le> resetAt e" using assms(4) by simp
  have "fst (run evs m) ! j = fst (step (Check ip t) (snd (run (take j evs) m)))"
    using run_nth [OF assms(3)] assms(4) by simp
  also have "\<dots> = Some (RATE_LIMIT < count e + checksOf ip (take j evs) + 1)"
    using st t by (simp add: isRateLimited_result)
  finally show ?thesis
    using checksOf_take_Suc [OF assms(3), of ip] assms(4) by simp
qed

lemma list_all_take: "list_all P xs \<Longrightarrow> list_all P (take j xs)"
  by (induction xs arbitrary: j) (simp_all add: take_Cons split: nat.splits)

lemma checksOf_take_mono:
  assumes "j \<le> k"
  shows "checksOf ip (take j evs) \<le> checksOf ip (take k evs)"
proof -
  have "take j (take k evs) @ drop j (take k evs) = take k evs"
    by (rule append_take_drop_id)
  moreover have "take j (take k evs) = take j evs"
    using assms by (simp add: min_def)
  ultimately have "take k evs = take j evs @ drop j (take k evs)"
    by simp
  then have "checksOf ip (take k evs)
               = checksOf ip (take j evs) + checksOf ip (drop j (take k evs))"
    using checksOf_append [of ip "take j evs" "drop j (take k evs)"] by simp
  then show ?thesis by simp
qed

lemma denied_entry:
  assumes "fst (isRateLimited t ip m0)" and "snd (isRateLimited t ip m0) ip = Some e"
  shows "RATE_LIMIT < count e"
proof (cases "m0 ip")
  case None
  then show ?thesis using assms(1) by (simp add: isRateLimited_result)
next
  case (Some e0)
  then have "\<not> t > resetAt e0" and "RATE_LIMIT < count e0 + 1"
    using assms(1) by (simp_all add: isRateLimited_result split: if_splits)
  moreover have "e = e0\<lparr>count := count e0 + 1\<rparr>"
    using assms(2) Some \<open>\<not> t > resetAt e0\<close> by (simp add: isRateLimited_entry)
  ultimately show ?thesis by simp
qed

text \<open>
  C6. Take a caller key \<open>ip\<close> whose entry is absent or whose stored reset time has
  passed at the clock reading \<open>t0\<close>. The check at \<open>t0\<close> (re)initialises the entry to
  count 1 with the reset time one window (60 seconds) ahead. Let any sequence of events
  follow in which the checks of \<open>ip\<close> and the cleanup runs happen before that reset time
  has passed (checks of other keys at any time). Then the check at position \<open>j\<close> of
  the whole sequence is denied exactly when it is the 6th or a later check of \<open>ip\<close>:
  \<open>checksOf ip (take (Suc j) ...)\<close> is its ordinal number. So the first 5 are allowed
  (the first of them being the check at \<open>t0\<close>), the 6th and all later ones are denied.
\<close>

theorem rate_limit_window:
  assumes fresh: "m ip = None \<or> (\<exists>e. m ip = Some e \<and> resetAt e < t0)"
      and win: "list_all (inWindow ip (t0 + RATE_WINDOW_MS)) evs"
      and j: "j < length (Check ip t0 # evs)"
      and ev: "(Check ip t0 # evs) ! j = Check ip t"
  shows "snd (isRateLimited t0 ip m) ip = Some \<lparr>count = 1, resetAt = t0 + RATE_WINDOW_MS\<rparr>
       \<and> fst (run (Check ip t0 # evs) m) ! j
           = Some (5 < checksOf ip (take (Suc j) (Check ip t0 # evs)))"
proof -
  let ?m1 = "snd (isRateLimited t0 ip m)"
  let ?e1 = "\<lparr>count = 1, resetAt = t0 + RATE_WINDOW_MS\<rparr>"
  have e1: "?m1 ip = Some ?e1"
    using fresh by (auto simp: isRateLimited_entry)
  have r0: "fst (isRateLimited t0 ip m) = False"
    using fresh by (auto simp: isRateLimited_result)
  have "fst (run (Check ip t0 # evs) m) ! j
          = Some (5 < checksOf ip (take (Suc j) (Check ip t0 # evs)))"
  proof (cases j)
    case 0
    then show ?thesis using r0 by simp
  next
    case (Suc i)
    then have i: "i < length evs" and evi: "evs ! i = Check ip t"
      using j ev by simp_all
    have "fst (run evs ?m1) ! i = Some (RATE_LIMIT < count ?e1 + checksOf ip (take (Suc i) evs))"
      using check_in_window [of ?m1 ip ?e1 evs i t] e1 win i evi by simp
    then show ?thesis using Suc by (simp add: RATE_LIMIT_def)
  qed
  then show ?thesis using e1 by simp
qed

theorem rate_limit_window_witness:
  "(Map.empty :: rate_map) ''10.0.0.1'' = None
   \<and> list_all (inWindow ''10.0.0.1'' (1000 + RATE_WINDOW_MS))
        [Check ''10.0.0.1'' 1001, Check ''unknown'' 99999, Check ''10.0.0.1'' 1002,
         Cleanup 2000, Check ''10.0.0.1'' 1003, Check ''10.0.0.1'' 1004,
         Check ''10.0.0.1'' 61000]
   \<and> fst (run [Check ''10.0.0.1'' 1000,
         Check ''10.0.0.1'' 1001, Check ''unknown'' 99999, Check ''10.0.0.1'' 1002,
         Cleanup 2000, Check ''10.0.0.1'' 1003, Check ''10.0.0.1'' 1004,
         Check ''10.0.0.1'' 61000] Map.empty) ! 6 = Some False
   \<and> fst (run [Check ''10.0.0.1'' 1000,
         Check ''10.0.0.1'' 1001, Check ''unknown'' 99999, Check ''10.0.0.1'' 1002,
         Cleanup 2000, Check ''10.0.0.1'' 1003, Check ''10.0.0.1'' 1004,
         Check ''10.0.0.1'' 61000] Map.empty) ! 7 = Some True"
proof -
  let ?ip = "''10.0.0.1''"
  let ?evs = "[Check ?ip 1001, Check ''unknown'' 99999, Check ?ip 1002,
         Cleanup 2000, Check ?ip 1003, Check ?ip 1004, Check ?ip 61000]"
  have h1: "(Map.empty :: rate_map) ?ip = None \<or> (\<exists>e. (Map.empty :: rate_map) ?ip = Some e \<and> resetAt e < 1000)"
    by simp
  have h2: "list_all (inWindow ?ip (1000 + RATE_WINDOW_MS)) ?evs"
    by (simp add: RATE_WINDOW_MS_def)
  have a: "fst (run (Check ?ip 1000 # ?evs) Map.empty) ! 7 = Some True"
    using rate_limit_window [OF h1 h2, of 7 61000] by simp
  have b: "fst (run (Check ?ip 1000 # ?evs) Map.empty) ! 6 = Some False"
    using rate_limit_window [OF h1 h2, of 6 1004] by simp
  have c: "(Map.empty :: rate_map) ?ip = None"
    by simp
  show ?thesis
    by (intro conjI) (rule c h2 a b)+
qed

text \<open>
  C9. Let \<open>e\<close> be the entry of the caller key \<open>ip\<close>. A check of \<open>ip\<close> increments the
  count of \<open>e\<close>, or, only when the clock reading has passed the stored reset time,
  reinitialises the entry. Along every sequence of events inside the window of \<open>e\<close>
  (checks of \<open>ip\<close> and cleanup runs before the stored reset time has passed, checks of
  other keys at any time) the entry keeps its reset time and its count never decreases:
  it is the count of \<open>e\<close> plus the number of checks of \<open>ip\<close> so far. Consequently, if
  \<open>e\<close> is what a denied check of \<open>ip\<close> has left, its count is above the limit and every
  check of \<open>ip\<close> in the sequence is denied.
\<close>

theorem denied_stays_denied:
  assumes e: "m ip = Some e"
      and win: "list_all (inWindow ip (resetAt e)) evs"
  shows "(\<forall>now. snd (isRateLimited now ip m) ip
                 = Some (if resetAt e < now then \<lparr>count = 1, resetAt = now + RATE_WINDOW_MS\<rparr>
                         else e\<lparr>count := count e + 1\<rparr>))
       \<and> (\<forall>j k. j \<le> k \<longrightarrow>
             (\<exists>ej ek. snd (run (take j evs) m) ip = Some ej
                    \<and> snd (run (take k evs) m) ip = Some ek
                    \<and> count ej = count e + checksOf ip (take j evs)
                    \<and> count ej \<le> count ek
                    \<and> resetAt ej = resetAt e \<and> resetAt ek = resetAt e))
       \<and> ((\<exists>t m0. fst (isRateLimited t ip m0) \<and> m = snd (isRateLimited t ip m0)) \<longrightarrow>
             RATE_LIMIT < count e
             \<and> (\<forall>j t'. j < length evs \<longrightarrow> evs ! j = Check ip t' \<longrightarrow>
                    fst (run evs m) ! j = Some True))"
proof (intro conjI allI impI)
  fix now
  show "snd (isRateLimited now ip m) ip
          = Some (if resetAt e < now then \<lparr>count = 1, resetAt = now + RATE_WINDOW_MS\<rparr>
                  else e\<lparr>count := count e + 1\<rparr>)"
    using e by (simp add: isRateLimited_entry)
next
  fix j k :: nat
  assume jk: "j \<le> k"
  have after: "snd (run (take i evs) m) ip = Some (e\<lparr>count := count e + checksOf ip (take i evs)\<rparr>)"
    for i
    using run_in_window [of m ip e "take i evs"] e list_all_take [OF win, of i] by simp
  show "\<exists>ej ek. snd (run (take j evs) m) ip = Some ej
              \<and> snd (run (take k evs) m) ip = Some ek
              \<and> count ej = count e + checksOf ip (take j evs)
              \<and> count ej \<le> count ek
              \<and> resetAt ej = resetAt e \<and> resetAt ek = resetAt e"
    using after [of j] after [of k] checksOf_take_mono [OF jk, of ip evs] by simp
next
  assume "\<exists>t m0. fst (isRateLimited t ip m0) \<and> m = snd (isRateLimited t ip m0)"
  then obtain t m0 where "fst (isRateLimited t ip m0)" and "m = snd (isRateLimited t ip m0)"
    by blast
  then show c: "RATE_LIMIT < count e"
    using denied_entry [of t ip m0 e] e by simp
  show "fst (run evs m) ! j = Some True" if "j < length evs" "evs ! j = Check ip t'" for j t'
    using check_in_window [of m ip e evs j t'] e win that c by simp
qed

theorem denied_stays_denied_witness:
  "fst (isRateLimited 100 ''10.0.0.1'' [''10.0.0.1'' \<mapsto> \<lparr>count = 5, resetAt = 5000\<rparr>])
   \<and> snd (isRateLimited 100 ''10.0.0.1'' [''10.0.0.1'' \<mapsto> \<lparr>count = 5, resetAt = 5000\<rparr>])
         ''10.0.0.1'' = Some \<lparr>count = 6, resetAt = 5000\<rparr>
   \<and> list_all (inWindow ''10.0.0.1'' (resetAt \<lparr>count = 6, resetAt = 5000\<rparr>))
         [Check ''unknown'' 9000, Cleanup 5000, Check ''10.0.0.1'' 4999]
   \<and> fst (run [Check ''unknown'' 9000, Cleanup 5000, Check ''10.0.0.1'' 4999]
             (snd (isRateLimited 100 ''10.0.0.1''
                     [''10.0.0.1'' \<mapsto> \<lparr>count = 5, resetAt = 5000\<rparr>]))) ! 2 = Some True"
proof -
  let ?ip = "''10.0.0.1''"
  let ?init = "[?ip \<mapsto> \<lparr>count = 5, resetAt = 5000\<rparr>] :: rate_map"
  let ?m = "snd (isRateLimited 100 ?ip ?init)"
  let ?e = "\<lparr>count = 6, resetAt = 5000\<rparr>"
  let ?evs = "[Check ''unknown'' 9000, Cleanup 5000, Check ?ip 4999]"
  have h1: "fst (isRateLimited 100 ?ip ?init)"
    by (simp add: isRateLimited_def RATE_LIMIT_def)
  have h2: "?m ?ip = Some ?e"
    by (simp add: isRateLimited_def)
  have h3: "list_all (inWindow ?ip (resetAt ?e)) ?evs"
    by simp
  have h4: "\<exists>t m0. fst (isRateLimited t ?ip m0) \<and> ?m = snd (isRateLimited t ?ip m0)"
    using h1 by blast
  have r: "fst (run ?evs ?m) ! 2 = Some True"
    using denied_stays_denied [of ?m ?ip ?e ?evs, OF h2 h3, THEN conjunct2, THEN conjunct2,
            THEN mp, OF h4, THEN conjunct2, rule_format, of 2 4999]
    by simp
  show ?thesis
    by (intro conjI) (rule h1 h2 h3 r)+
qed

section \<open>Properties of the size limiter\<close>

lemma pipeThrough_errored: "errored l \<Longrightarrow> pipeThrough chunks l = l"
  by (cases chunks) simp_all

lemma transform_over:
  "MAX_CRX_SIZE < bytesRead l + length chunk \<Longrightarrow>
     transform chunk l = l\<lparr>bytesRead := bytesRead l + length chunk, errored := True\<rparr>"
  by (simp add: transform_def Let_def)

lemma transform_within:
  "bytesRead l + length chunk \<le> MAX_CRX_SIZE \<Longrightarrow>
     transform chunk l
       = l\<lparr>bytesRead := bytesRead l + length chunk, enqueued := enqueued l @ [chunk]\<rparr>"
  by (simp add: transform_def Let_def)

lemma pipeThrough_from:
  assumes "\<not> errored l" and "bytesRead l \<le> MAX_CRX_SIZE"
  shows "\<exists>del. enqueued (pipeThrough chunks l) = enqueued l @ del
             \<and> prefix del chunks
             \<and> bytesRead l + length (concat del) \<le> MAX_CRX_SIZE
             \<and> (errored (pipeThrough chunks l)
                  \<longleftrightarrow> MAX_CRX_SIZE < bytesRead l + length (concat chunks))
             \<and> (errored (pipeThrough chunks l) \<longrightarrow>
                  (\<exists>c rest. chunks = del @ c # rest
                     \<and> MAX_CRX_SIZE < bytesRead l + length (concat del) + length c))
             \<and> (\<not> errored (pipeThrough chunks l) \<longrightarrow> del = chunks)"
  using assms
proof (induction chunks arbitrary: l)
  case Nil
  then show ?case by simp
next
  case (Cons chunk chunks)
  show ?case
  proof (cases "MAX_CRX_SIZE < bytesRead l + length chunk")
    case True
    let ?l' = "l\<lparr>bytesRead := bytesRead l + length chunk, errored := True\<rparr>"
    have "pipeThrough (chunk # chunks) l = ?l'"
      using Cons.prems True by (simp add: transform_over pipeThrough_errored)
    then show ?thesis using True Cons.prems
      by (intro exI [of _ "[]"]) auto
  next
    case False
    let ?l' = "l\<lparr>bytesRead := bytesRead l + length chunk, enqueued := enqueued l @ [chunk]\<rparr>"
    have step: "pipeThrough (chunk # chunks) l = pipeThrough chunks ?l'"
      using Cons.prems False by (simp add: transform_within)
    have "\<not> errored ?l'" and "bytesRead ?l' \<le> MAX_CRX_SIZE"
      using Cons.prems False by simp_all
    from Cons.IH [OF this] obtain del where
      d: "enqueued (pipeThrough chunks ?l') = enqueued ?l' @ del"
         "prefix del chunks"
         "bytesRead ?l' + length (concat del) \<le> MAX_CRX_SIZE"
         "errored (pipeThrough chunks ?l') \<longleftrightarrow> MAX_CRX_SIZE < bytesRead ?l' + length (concat chunks)"
         "errored (pipeThrough chunks ?l') \<longrightarrow>
            (\<exists>c rest. chunks = del @ c # rest
               \<and> MAX_CRX_SIZE < bytesRead ?l' + length (concat del) + length c)"
         "\<not> errored (pipeThrough chunks ?l') \<longrightarrow> del = chunks"
      by blast
    show ?thesis
    proof (intro exI [of _ "chunk # del"] conjI)
      show "enqueued (pipeThrough (chunk # chunks) l) = enqueued l @ chunk # del"
        using step d(1) by simp
      show "prefix (chunk # del) (chunk # chunks)"
        using d(2) by simp
      show "bytesRead l + length (concat (chunk # del)) \<le> MAX_CRX_SIZE"
        using d(3) by (simp add: add.assoc)
      show "errored (pipeThrough (chunk # chunks) l)
              \<longleftrightarrow> MAX_CRX_SIZE < bytesRead l + length (concat (chunk # chunks))"
        using step d(4) by (simp add: add.assoc)
      show "errored (pipeThrough (chunk # chunks) l) \<longrightarrow>
              (\<exists>c rest. chunk # chunks = (chunk # del) @ c # rest
                 \<and> MAX_CRX_SIZE < bytesRead l + length (concat (chunk # del)) + length c)"
        using step d(5) by (simp add: add.assoc)
      show "\<not> errored (pipeThrough (chunk # chunks) l) \<longrightarrow> chunk # del = chunk # chunks"
        using step d(6) by simp
    qed
  qed
qed

text \<open>
  C5. For every sequence of upstream chunks, what the limiter hands on is a prefix of
  that sequence (the chunks themselves, unchanged and in order), and it never holds more
  than 20 MiB. When the upstream emits more than 20 MiB in all, the limiter ends in its
  errored state: the chunk after the delivered prefix is the first that pushes the running
  total past the ceiling, it is not delivered, and the caller's stream ends with the size
  error however the upstream would have ended. Otherwise every chunk is delivered, and the
  stream closes when the upstream closes.
\<close>

theorem limiter_guard:
  "prefix (enqueued (pipeThrough chunks limiter0)) chunks
   \<and> length (concat (enqueued (pipeThrough chunks limiter0))) \<le> MAX_CRX_SIZE
   \<and> (MAX_CRX_SIZE < length (concat chunks) \<longrightarrow>
        errored (pipeThrough chunks limiter0)
        \<and> (\<exists>c rest. chunks = enqueued (pipeThrough chunks limiter0) @ c # rest
              \<and> MAX_CRX_SIZE < length (concat (enqueued (pipeThrough chunks limiter0))) + length c)
        \<and> limited_stream chunks fin
            = Stream (enqueued (pipeThrough chunks limiter0)) ExceededMaximumSize)
   \<and> (length (concat chunks) \<le> MAX_CRX_SIZE \<longrightarrow>
        \<not> errored (pipeThrough chunks limiter0)
        \<and> enqueued (pipeThrough chunks limiter0) = chunks
        \<and> limited_stream chunks None = Stream chunks Closed)"
proof -
  have "\<not> errored limiter0" and "bytesRead limiter0 \<le> MAX_CRX_SIZE"
    by (simp_all add: limiter0_def)
  from pipeThrough_from [OF this, of chunks] obtain del where
    d: "enqueued (pipeThrough chunks limiter0) = del"
       "prefix del chunks"
       "length (concat del) \<le> MAX_CRX_SIZE"
       "errored (pipeThrough chunks limiter0) \<longleftrightarrow> MAX_CRX_SIZE < length (concat chunks)"
       "errored (pipeThrough chunks limiter0) \<longrightarrow>
          (\<exists>c rest. chunks = del @ c # rest \<and> MAX_CRX_SIZE < length (concat del) + length c)"
       "\<not> errored (pipeThrough chunks limiter0) \<longrightarrow> del = chunks"
    by (auto simp: limiter0_def)
  show ?thesis
    using d by (auto simp: limited_stream_def Let_def)
qed

theorem limiter_guard_witness:
  "MAX_CRX_SIZE < length (concat [[1, 2, 3], replicate 20971520 (0 :: byte), [4]])
   \<and> errored (pipeThrough [[1, 2, 3], replicate 20971520 0, [4]] limiter0)
   \<and> enqueued (pipeThrough [[1, 2, 3], replicate 20971520 0, [4]] limiter0) = [[1, 2, 3]]
   \<and> length (concat [[1, 2 :: byte], [3]]) \<le> MAX_CRX_SIZE
   \<and> enqueued (pipeThrough [[1, 2], [3]] limiter0) = [[1, 2], [3]]"
proof -
  let ?big = "[[1, 2, 3], replicate 20971520 (0 :: byte), [4]]"
  have h: "MAX_CRX_SIZE < length (concat ?big)"
    by (simp add: MAX_CRX_SIZE_def)
  have a: "errored (pipeThrough ?big limiter0)"
    using limiter_guard [of ?big None] h by blast
  have b: "enqueued (pipeThrough ?big limiter0) = [[1, 2, 3]]"
    by (simp add: transform_def limiter0_def MAX_CRX_SIZE_def)
  have h': "length (concat [[1, 2 :: byte], [3]]) \<le> MAX_CRX_SIZE"
    by (simp add: MAX_CRX_SIZE_def)
  have c: "enqueued (pipeThrough [[1, 2], [3]] limiter0) = [[1, 2], [3]]"
    using limiter_guard [of "[[1, 2], [3]]" None] h' by blast
  show ?thesis
    by (intro conjI) (rule h a b h' c)+
qed

section \<open>Properties of the file name\<close>

lemma az09_not_hyphen: "\<not> az09 hyphen"
  by (simp add: az09_def hyphen_def)

lemma replaceRuns_collapseRuns: "replaceRuns s = collapseRuns az09 s"
  by (induction s rule: replaceRuns.induct)
     (simp_all add: replaceRuns.simps collapseRuns.simps)

text \<open>The output of \<open>collapseRuns\<close> never holds two hyphens in a row.\<close>

lemma collapseRuns_head:
  "\<not> P hyphen \<Longrightarrow> s = [] \<or> P (hd s) \<Longrightarrow>
     collapseRuns P s = [] \<or> hd (collapseRuns P s) \<noteq> hyphen"
  by (cases s) (auto simp: collapseRuns.simps)

lemma dropWhile_not_head: "dropWhile (\<lambda>d. \<not> P d) cs = [] \<or> P (hd (dropWhile (\<lambda>d. \<not> P d) cs))"
  using hd_dropWhile [of "\<lambda>d. \<not> P d" cs] by auto

lemma collapseRuns_no_double:
  assumes np: "\<not> P hyphen"
  shows "\<not> sublist [hyphen, hyphen] (collapseRuns P s)"
  using np
proof (induction P s rule: collapseRuns.induct)
  case (1 P)
  then show ?case by (simp add: collapseRuns.simps)
next
  case (2 P c cs)
  show ?case
  proof (cases "P c")
    case True
    then have "c \<noteq> hyphen" using "2.prems" by auto
    then show ?thesis
      using "2.IH"(1) "2.prems" True
      by (auto simp: collapseRuns.simps(2) [of P c cs] sublist_Cons_right)
  next
    case False
    let ?r = "dropWhile (\<lambda>d. \<not> P d) cs"
    have "collapseRuns P ?r = [] \<or> hd (collapseRuns P ?r) \<noteq> hyphen"
      using collapseRuns_head [of P ?r] "2.prems" dropWhile_not_head [of P cs] by blast
    then have "\<not> prefix [hyphen, hyphen] (hyphen # collapseRuns P ?r)"
      by (cases "collapseRuns P ?r") auto
    then show ?thesis
      using "2.IH"(2) "2.prems" False
      by (simp add: collapseRuns.simps(2) [of P c cs] sublist_Cons_right)
  qed
qed

lemma dropWhile_hyphen:
  assumes "\<not> sublist [hyphen, hyphen] t"
  shows "dropWhile (\<lambda>c. c = hyphen) t = (if t \<noteq> [] \<and> hd t = hyphen then tl t else t)"
proof (cases t)
  case Nil
  then show ?thesis by simp
next
  case (Cons c t')
  show ?thesis
  proof (cases "c = hyphen")
    case False
    then show ?thesis using Cons by simp
  next
    case True
    have "t' = [] \<or> hd t' \<noteq> hyphen"
    proof (rule ccontr)
      assume "\<not> (t' = [] \<or> hd t' \<noteq> hyphen)"
      then obtain t'' where "t' = hyphen # t''"
        by (cases t') auto
      then have "prefix [hyphen, hyphen] t" using Cons True by simp
      then show False using assms by (simp add: prefix_imp_sublist)
    qed
    then have "dropWhile (\<lambda>c. c = hyphen) t' = t'"
      by (cases t') auto
    then show ?thesis using Cons True by simp
  qed
qed

lemma tl_rev_butlast: "tl (rev xs) = rev (butlast xs)"
  by (metis butlast_rev rev_rev_ident)

lemma replaceEnds_trimHyphens:
  assumes "\<not> sublist [hyphen, hyphen] t"
  shows "replaceEnds t = trimHyphens t"
proof -
  let ?u = "if t \<noteq> [] \<and> hd t = hyphen then tl t else t"
  have "sublist ?u t"
    by (cases t) (auto simp: sublist_Cons_right)
  then have u: "\<not> sublist [hyphen, hyphen] ?u"
    using assms sublist_order.order.trans by blast
  have ru: "\<not> sublist [hyphen, hyphen] (rev ?u)"
    unfolding sublist_rev_right using u by simp
  have "dropWhile (\<lambda>c. c = hyphen) (rev ?u)
          = (if rev ?u \<noteq> [] \<and> hd (rev ?u) = hyphen then tl (rev ?u) else rev ?u)"
    using dropWhile_hyphen [OF ru] .
  also have "\<dots> = rev (if ?u \<noteq> [] \<and> last ?u = hyphen then butlast ?u else ?u)"
    by (simp add: hd_rev tl_rev_butlast)
  finally have "trimHyphens t = (if ?u \<noteq> [] \<and> last ?u = hyphen then butlast ?u else ?u)"
    unfolding trimHyphens_def dropWhile_hyphen [OF assms] by simp
  then show ?thesis
    by (simp add: replaceEnds_def Let_def)
qed

lemma safeName_sanitizedName: "safeName lc hint = sanitizedName az09 (toLowerCase lc hint)"
  by (simp add: safeName_def sanitizedName_def replaceRuns_collapseRuns
        replaceEnds_trimHyphens collapseRuns_no_double az09_not_hyphen)

text \<open>The sanitized name holds only units of the class and hyphens: ASCII.\<close>

lemma replaceRuns_units: "u \<in> set (replaceRuns s) \<Longrightarrow> az09 u \<or> u = hyphen"
  by (induction s rule: replaceRuns.induct)
     (auto simp: replaceRuns.simps split: if_splits)

lemma replaceEnds_subset: "set (replaceEnds t) \<subseteq> set t"
proof -
  have a: "set (tl t) \<subseteq> set t"
    by (cases t) auto
  have b: "set (butlast x) \<subseteq> set x" for x :: ustring
    by (auto dest: in_set_butlastD)
  show ?thesis
    unfolding replaceEnds_def Let_def using a b [of t] b [of "tl t"] by auto
qed

lemma safeName_units: "u \<in> set (safeName lc hint) \<Longrightarrow> az09 u \<or> u = hyphen"
  using replaceEnds_subset [of "replaceRuns (toLowerCase lc hint)"] replaceRuns_units
  unfolding safeName_def by blast

lemma ascii_unit: "az09 u \<or> u = hyphen \<Longrightarrow> u < 0x100"
  by (auto simp: az09_def hyphen_def word_le_nat_alt word_less_nat_alt)

lemma unit_of_char: "(u :: unit16) < 0x100 \<Longrightarrow> of_nat (of_char (char_of (unat u))) = u"
proof -
  assume "u < 0x100"
  then have "unat u < 256"
    by (simp add: word_less_nat_alt)
  then show ?thesis by simp
qed

lemma units_chars_safeName: "units (chars (safeName lc hint)) = safeName lc hint"
proof -
  have "\<forall>u \<in> set (safeName lc hint). of_nat (of_char (char_of (unat u))) = u"
    using safeName_units [of _ lc hint] ascii_unit unit_of_char by blast
  then show ?thesis
    by (simp add: units_def chars_def map_idI)
qed

text \<open>
  The trimmed, collapsed name is the alphanumeric words of the string joined by hyphens,
  for every class of alphanumeric characters that does not hold the hyphen.
\<close>

lemma rtrim_append_keep:
  assumes "rev (dropWhile Q (rev y)) \<noteq> []"
  shows "rev (dropWhile Q (rev (x @ y))) = x @ rev (dropWhile Q (rev y))"
proof -
  from assms have "dropWhile Q (rev y) \<noteq> []" by simp
  then obtain z where "z \<in> set (rev y)" and "\<not> Q z"
    by (auto simp: dropWhile_eq_Nil_conv)
  then have "dropWhile Q (rev y @ rev x) = dropWhile Q (rev y) @ rev x"
    by (rule dropWhile_append1)
  then show ?thesis by simp
qed

lemma rtrim_append_drop:
  assumes "rev (dropWhile Q (rev y)) = []"
  shows "rev (dropWhile Q (rev (x @ y))) = rev (dropWhile Q (rev x))"
proof -
  from assms have "\<forall>z \<in> set (rev y). Q z"
    by (simp add: dropWhile_eq_Nil_conv)
  then have "dropWhile Q (rev y @ rev x) = dropWhile Q (rev x)"
    by (intro dropWhile_append2) simp
  then show ?thesis by simp
qed

lemma rtrim_word:
  assumes "\<not> P hyphen" and "w \<noteq> []" and "\<forall>c \<in> set w. P c"
  shows "rev (dropWhile (\<lambda>c. c = hyphen) (rev w)) = w"
proof -
  have "last w \<noteq> hyphen"
    using assms last_in_set by metis
  then have "hd (rev w) \<noteq> hyphen" by (simp add: hd_rev)
  then have "dropWhile (\<lambda>c. c = hyphen) (rev w) = rev w"
    using assms(2) by (cases "rev w") auto
  then show ?thesis by simp
qed

lemma collapseRuns_word:
  "\<forall>c \<in> set w. P c \<Longrightarrow> collapseRuns P (w @ r) = w @ collapseRuns P r"
  by (induction w) (simp_all add: collapseRuns.simps(2))

lemma wordsOf_nonempty: "[] \<notin> set (wordsOf P s)"
  by (induction P s rule: wordsOf.induct) (auto simp: wordsOf.simps)

lemma joinHyphen_Nil: "[] \<notin> set ws \<Longrightarrow> joinHyphen ws = [] \<longleftrightarrow> ws = []"
  by (induction ws rule: joinHyphen.induct) auto

lemma joinHyphen_Cons:
  "ws \<noteq> [] \<Longrightarrow> joinHyphen (w # ws) = w @ hyphen # joinHyphen ws"
  by (cases ws) simp_all

lemma rtrim_collapseRuns_words:
  assumes np: "\<not> P hyphen"
  shows "rev (dropWhile (\<lambda>c. c = hyphen)
           (rev (collapseRuns P (dropWhile (\<lambda>d. \<not> P d) s))))
         = joinHyphen (wordsOf P s)"
  using np
proof (induction P s rule: wordsOf.induct)
  case (1 P)
  then show ?case by (simp add: collapseRuns.simps wordsOf.simps)
next
  case (2 P c cs)
  note np = "2.prems"
  let ?H = "\<lambda>c. c = hyphen"
  show ?case
  proof (cases "P c")
    case False
    then show ?thesis using "2.IH"(2) np by (simp add: wordsOf.simps(2) [of P c cs])
  next
    case True
    let ?w = "takeWhile P (c # cs)"
    let ?r = "dropWhile P cs"
    let ?X = "collapseRuns P (dropWhile (\<lambda>d. \<not> P d) ?r)"
    let ?J = "joinHyphen (wordsOf P ?r)"
    have w: "?w \<noteq> []" "\<forall>x \<in> set ?w. P x"
      using True by (auto dest: set_takeWhileD)
    have split: "?w @ ?r = c # cs"
      using True by simp
    have ws: "wordsOf P (c # cs) = ?w # wordsOf P ?r"
      using True by (simp add: wordsOf.simps(2) [of P c cs])
    have cr: "collapseRuns P (c # cs) = ?w @ collapseRuns P ?r"
      using collapseRuns_word [OF w(2), of ?r] unfolding split .
    have IH: "rev (dropWhile ?H (rev ?X)) = ?J"
      using "2.IH"(1) True np by simp
    have lhs: "dropWhile (\<lambda>d. \<not> P d) (c # cs) = c # cs"
      using True by simp
    have start: "rev (dropWhile ?H (rev (collapseRuns P (dropWhile (\<lambda>d. \<not> P d) (c # cs)))))
                   = rev (dropWhile ?H (rev (?w @ collapseRuns P ?r)))"
      by (simp only: lhs cr)
    have word: "rev (dropWhile ?H (rev ?w)) = ?w"
      using rtrim_word [of P ?w] np w by blast
    show ?thesis
    proof (cases ?r)
      case Nil
      have "rev (dropWhile ?H (rev (?w @ collapseRuns P ?r))) = rev (dropWhile ?H (rev ?w))"
        by (simp only: Nil collapseRuns.simps(1) append_Nil2)
      also have "\<dots> = ?w"
        by (rule word)
      also have "\<dots> = joinHyphen (wordsOf P (c # cs))"
        by (simp only: ws Nil wordsOf.simps(1) joinHyphen.simps)
      finally show ?thesis
        using start by (rule trans [rotated])
    next
      case (Cons d r0)
      have nd: "\<not> P d"
        using hd_dropWhile [of P cs] Cons by auto
      have "collapseRuns P (d # r0) = hyphen # collapseRuns P (dropWhile (\<lambda>d. \<not> P d) (d # r0))"
        using nd by (simp add: collapseRuns.simps(2))
      then have crr: "collapseRuns P ?r = hyphen # ?X"
        by (simp only: Cons)
      show ?thesis
      proof (cases "?J = []")
        case True
        then have e: "wordsOf P ?r = []"
          using joinHyphen_Nil [OF wordsOf_nonempty, of P ?r] by simp
        have "rev (dropWhile ?H (rev ?X)) = []"
          using IH True by (rule trans)
        then have "rev (dropWhile ?H (rev (hyphen # ?X))) = []"
          by simp
        then have "rev (dropWhile ?H (rev (?w @ hyphen # ?X))) = rev (dropWhile ?H (rev ?w))"
          by (rule rtrim_append_drop)
        also have "\<dots> = ?w"
          by (rule word)
        also have "\<dots> = joinHyphen (wordsOf P (c # cs))"
          by (simp only: ws e joinHyphen.simps)
        finally show ?thesis
          using start by (simp only: crr)
      next
        case False
        then have ne: "wordsOf P ?r \<noteq> []"
          by auto
        have "rev (dropWhile ?H (rev ?X)) \<noteq> []"
          unfolding IH by (rule False)
        then have "rev (dropWhile ?H (rev ((?w @ [hyphen]) @ ?X)))
                     = (?w @ [hyphen]) @ rev (dropWhile ?H (rev ?X))"
          by (rule rtrim_append_keep)
        then have "rev (dropWhile ?H (rev (?w @ hyphen # ?X))) = ?w @ hyphen # ?J"
          by (simp only: IH append_assoc append_Cons append_Nil)
        also have "\<dots> = joinHyphen (wordsOf P (c # cs))"
          by (simp only: ws joinHyphen_Cons [OF ne])
        finally show ?thesis
          using start by (simp only: crr)
      qed
    qed
  qed
qed

lemma ltrim_collapseRuns:
  assumes np: "\<not> P hyphen"
  shows "dropWhile (\<lambda>c. c = hyphen) (collapseRuns P s)
           = collapseRuns P (dropWhile (\<lambda>d. \<not> P d) s)"
proof (cases s)
  case Nil
  then show ?thesis by (simp add: collapseRuns.simps)
next
  case (Cons c cs)
  show ?thesis
  proof (cases "P c")
    case True
    then have "c \<noteq> hyphen" using np by auto
    then show ?thesis using Cons True by (simp add: collapseRuns.simps(2))
  next
    case False
    let ?r = "dropWhile (\<lambda>d. \<not> P d) cs"
    have "collapseRuns P ?r = [] \<or> hd (collapseRuns P ?r) \<noteq> hyphen"
      using collapseRuns_head [of P ?r] np dropWhile_not_head [of P cs] by blast
    then have "dropWhile (\<lambda>c. c = hyphen) (collapseRuns P ?r) = collapseRuns P ?r"
      by (cases "collapseRuns P ?r") auto
    then show ?thesis using Cons False by (simp add: collapseRuns.simps(2))
  qed
qed

lemma sanitizedName_words:
  "\<not> P hyphen \<Longrightarrow> sanitizedName P s = joinHyphen (wordsOf P s)"
  by (simp add: sanitizedName_def trimHyphens_def ltrim_collapseRuns rtrim_collapseRuns_words)

lemma example_name:
  "safeName lc (units ''My Cool!! Extension--Name'') = units ''my-cool-extension-name''"
  by code_simp

lemma example_chars: "chars (units ''my-cool-extension-name'') = ''my-cool-extension-name''"
  by code_simp

text \<open>
  C8, as the code has it. For every display-name hint (any string of UTF-16 code units,
  whatever the runtime's \<open>toLowerCase\<close> gives beyond Latin-1), the name the handler
  computes with its two regular expressions is the lowercased hint with every run of
  characters other than \<open>a\<close> to \<open>z\<close> and \<open>0\<close> to \<open>9\<close> collapsed to one hyphen and all
  leading and trailing hyphens removed; this is the list of the maximal \<open>[a-z0-9]\<close> words
  of the lowercased hint joined by single hyphens, and it is pure ASCII. The file name is
  \<open>{name}-{id}.zip\<close> when that name is not empty and \<open>{id}.zip\<close> when it is empty or
  when no hint is given. The hint \<open>My Cool!! Extension--Name\<close> gives
  \<open>my-cool-extension-name-{id}.zip\<close>.
\<close>

theorem filename_sanitized:
  "safeName lc hint = sanitizedName az09 (toLowerCase lc hint)
   \<and> sanitizedName az09 (toLowerCase lc hint) = joinHyphen (wordsOf az09 (toLowerCase lc hint))
   \<and> units (chars (safeName lc hint)) = safeName lc hint
   \<and> filename lc (Some hint) ident
       = (if sanitizedName az09 (toLowerCase lc hint) = [] then ident @ ''.zip''
          else chars (sanitizedName az09 (toLowerCase lc hint)) @ ''-'' @ ident @ ''.zip'')
   \<and> filename lc None ident = ident @ ''.zip''
   \<and> filename lc (Some (units ''My Cool!! Extension--Name'')) ident
       = ''my-cool-extension-name-'' @ ident @ ''.zip''"
proof (intro conjI)
  show "safeName lc hint = sanitizedName az09 (toLowerCase lc hint)"
    by (rule safeName_sanitizedName)
  show "sanitizedName az09 (toLowerCase lc hint) = joinHyphen (wordsOf az09 (toLowerCase lc hint))"
    using az09_not_hyphen by (rule sanitizedName_words)
  show "units (chars (safeName lc hint)) = safeName lc hint"
    by (rule units_chars_safeName)
  show "filename lc (Some hint) ident
          = (if sanitizedName az09 (toLowerCase lc hint) = [] then ident @ ''.zip''
             else chars (sanitizedName az09 (toLowerCase lc hint)) @ ''-'' @ ident @ ''.zip'')"
    by (simp add: filename_def Let_def safeName_sanitizedName)
  have "safeName lc [] = []"
    by code_simp
  then show "filename lc None ident = ident @ ''.zip''"
    by (simp add: filename_def)
  show "filename lc (Some (units ''My Cool!! Extension--Name'')) ident
          = ''my-cool-extension-name-'' @ ident @ ''.zip''"
    by (simp add: filename_def Let_def example_name example_chars) code_simp
qed

theorem filename_sanitized_witness:
  "filename (\<lambda>s. s) (Some (units ''  Ad-Block (PLUS)  '')) ''abcdefghijklmnopabcdefghijklmnop''
     = ''ad-block-plus-abcdefghijklmnopabcdefghijklmnop.zip''
   \<and> filename (\<lambda>s. s) (Some (units '' - '')) ''abcdefghijklmnopabcdefghijklmnop''
     = ''abcdefghijklmnopabcdefghijklmnop.zip''
   \<and> filename (\<lambda>s. [0x6B, 0x20, 0x61]) (Some [0x212A, 0x20, 0x41])
        ''abcdefghijklmnopabcdefghijklmnop''
     = ''k-a-abcdefghijklmnopabcdefghijklmnop.zip''"
proof -
  let ?id = "''abcdefghijklmnopabcdefghijklmnop''"
  have a: "sanitizedName az09 (toLowerCase (\<lambda>s. s) (units ''  Ad-Block (PLUS)  ''))
             = units ''ad-block-plus''"
    by code_simp
  have a': "chars (units ''ad-block-plus'') = ''ad-block-plus''"
    by code_simp
  have b: "sanitizedName az09 (toLowerCase (\<lambda>s. s) (units '' - '')) = []"
    by code_simp
  have c: "sanitizedName az09 (toLowerCase (\<lambda>s. [0x6B, 0x20, 0x61]) [0x212A, 0x20, 0x41])
             = units ''k-a''"
    by code_simp
  have c': "chars (units ''k-a'') = ''k-a''"
    by code_simp
  have n: "units ''ad-block-plus'' \<noteq> []" "units ''k-a'' \<noteq> []"
    by (simp_all add: units_def)
  have r1: "filename (\<lambda>s. s) (Some (units ''  Ad-Block (PLUS)  '')) ?id
              = ''ad-block-plus-abcdefghijklmnopabcdefghijklmnop.zip''"
    using filename_sanitized [of "\<lambda>s. s" "units ''  Ad-Block (PLUS)  ''" ?id]
    by (simp add: a a' n)
  have r2: "filename (\<lambda>s. s) (Some (units '' - '')) ?id = ''abcdefghijklmnopabcdefghijklmnop.zip''"
    using filename_sanitized [of "\<lambda>s. s" "units '' - ''" ?id]
    by (simp add: b)
  have r3: "filename (\<lambda>s. [0x6B, 0x20, 0x61]) (Some [0x212A, 0x20, 0x41]) ?id
              = ''k-a-abcdefghijklmnopabcdefghijklmnop.zip''"
    using filename_sanitized [of "\<lambda>s. [0x6B, 0x20, 0x61]" "[0x212A, 0x20, 0x41]" ?id]
    by (simp add: c c' n)
  show ?thesis
    by (intro conjI) (rule r1 r2 r3)+
qed

text \<open>
  C8 as stated fails when "alphanumeric" is read as it commonly is, a letter or digit of
  any script. For the hint \<open>Caf\<close> followed by \<open>U+00E9\<close> (e with acute accent) the
  lowercased hint is one alphanumeric word and would be the sanitized name as it stands;
  the handler treats \<open>U+00E9\<close> as a separator and names the file \<open>caf-{id}.zip\<close>.
\<close>

theorem non_ascii_letter_counterexample:
  "letterOrDigit (\<lambda>u. False) 0xE9
   \<and> toLowerCase (\<lambda>s. s) [0x43, 0x61, 0x66, 0xE9] = [0x63, 0x61, 0x66, 0xE9]
   \<and> sanitizedName (letterOrDigit (\<lambda>u. False)) (toLowerCase (\<lambda>s. s) [0x43, 0x61, 0x66, 0xE9])
       = [0x63, 0x61, 0x66, 0xE9]
   \<and> safeName (\<lambda>s. s) [0x43, 0x61, 0x66, 0xE9] = [0x63, 0x61, 0x66]
   \<and> safeName (\<lambda>s. s) [0x43, 0x61, 0x66, 0xE9]
       \<noteq> sanitizedName (letterOrDigit (\<lambda>u. False)) (toLowerCase (\<lambda>s. s) [0x43, 0x61, 0x66, 0xE9])
   \<and> filename (\<lambda>s. s) (Some [0x43, 0x61, 0x66, 0xE9]) ''abcdefghijklmnopabcdefghijklmnop''
       = ''caf-abcdefghijklmnopabcdefghijklmnop.zip''"
proof -
  have a: "letterOrDigit (\<lambda>u. False) 0xE9"
    by code_simp
  have b: "toLowerCase (\<lambda>s. s) [0x43, 0x61, 0x66, 0xE9] = [0x63, 0x61, 0x66, 0xE9]"
    by code_simp
  have c: "sanitizedName (letterOrDigit (\<lambda>u. False)) [0x63, 0x61, 0x66, 0xE9]
             = [0x63, 0x61, 0x66, 0xE9]"
    by code_simp
  have d: "safeName (\<lambda>s. s) [0x43, 0x61, 0x66, 0xE9] = [0x63, 0x61, 0x66]"
    by code_simp
  have e: "filename (\<lambda>s. s) (Some [0x43, 0x61, 0x66, 0xE9]) ''abcdefghijklmnopabcdefghijklmnop''
             = ''caf-abcdefghijklmnopabcdefghijklmnop.zip''"
    by code_simp
  show ?thesis
    unfolding b c d using a e by simp
qed

section \<open>Properties of the handlers\<close>

lemma letters_of_codes: "map char_of [97..<123::nat] = ''abcdefghijklmnopqrstuvwxyz''"
  by code_simp

lemma lower_az_alphabet: "lower_az c \<longleftrightarrow> c \<in> set ''abcdefghijklmnopqrstuvwxyz''"
proof
  assume "c \<in> set ''abcdefghijklmnopqrstuvwxyz''"
  then show "lower_az c"
    by (auto simp: lower_az_def code_def)
next
  assume "lower_az c"
  then have "97 \<le> code c \<and> code c < 123"
    by (simp add: lower_az_def)
  then have "code c \<in> set [97..<123]"
    by (simp only: set_upt atLeastLessThan_iff)
  then have "char_of (code c) \<in> char_of ` set [97..<123]"
    by (rule imageI)
  moreover have "char_of (code c) = c"
    by (simp add: code_def)
  ultimately have "c \<in> (char_of :: nat \<Rightarrow> char) ` set [97..<123]"
    by (simp only:)
  moreover have "(char_of :: nat \<Rightarrow> char) ` set [97..<123] = set ''abcdefghijklmnopqrstuvwxyz''"
    unfolding letters_of_codes [symmetric] by (simp only: set_map)
  ultimately show "c \<in> set ''abcdefghijklmnopqrstuvwxyz''"
    by (simp only:)
qed

lemma validId_alphabet:
  "validId ident \<longleftrightarrow> length ident = 32 \<and> set ident \<subseteq> set ''abcdefghijklmnopqrstuvwxyz''"
  unfolding validId_def list_all_iff using lower_az_alphabet by blast

lemma GET_archive_invalid:
  "\<not> validId (req_id req) \<Longrightarrow> GET_archive lc req now fetch m = (json InvalidExtensionId 400 [], [], m)"
  by (simp add: GET_archive_def)

lemma GET_raw_invalid:
  "\<not> validId (req_id req) \<Longrightarrow> GET_raw req now fetch m = (json InvalidExtensionId 400 [], [], m)"
  by (simp add: GET_raw_def)

lemma GET_archive_limited:
  "validId (req_id req) \<Longrightarrow> fst (isRateLimited now (callerKey (req_forwardedFor req)) m) \<Longrightarrow>
     GET_archive lc req now fetch m
       = (json TooManyRequests 429 [(''Retry-After'', ''60'')],
          [RateCheck (callerKey (req_forwardedFor req))],
          snd (isRateLimited now (callerKey (req_forwardedFor req)) m))"
  by (simp add: GET_archive_def Let_def)

lemma GET_raw_limited:
  "validId (req_id req) \<Longrightarrow> fst (isRateLimited now (callerKey (req_forwardedFor req)) m) \<Longrightarrow>
     GET_raw req now fetch m
       = (json TooManyRequests 429 [(''Retry-After'', ''60'')],
          [RateCheck (callerKey (req_forwardedFor req))],
          snd (isRateLimited now (callerKey (req_forwardedFor req)) m))"
  by (simp add: GET_raw_def Let_def)

lemma GET_archive_fetch:
  "validId (req_id req) \<Longrightarrow> \<not> fst (isRateLimited now (callerKey (req_forwardedFor req)) m) \<Longrightarrow>
     GET_archive lc req now fetch m
       = (case fetch (crxUrl (req_id req)) of
            Threw e \<Rightarrow> catch e
          | Responded up \<Rightarrow> if ok up then deliverArchive lc req up else upstreamError up,
          [RateCheck (callerKey (req_forwardedFor req)), Fetch (crxUrl (req_id req))]
            @ (case fetch (crxUrl (req_id req)) of
                 Threw e \<Rightarrow> []
               | Responded up \<Rightarrow> if ok up then [ReadBody] else []),
          snd (isRateLimited now (callerKey (req_forwardedFor req)) m))"
  by (simp add: GET_archive_def Let_def split: fetched.splits)

lemma GET_raw_fetch:
  "validId (req_id req) \<Longrightarrow> \<not> fst (isRateLimited now (callerKey (req_forwardedFor req)) m) \<Longrightarrow>
     GET_raw req now fetch m
       = (case fetch (crxUrl (req_id req)) of
            Threw e \<Rightarrow> catch e
          | Responded up \<Rightarrow> if ok up then fst (deliverRaw req up) else upstreamError up,
          [RateCheck (callerKey (req_forwardedFor req)), Fetch (crxUrl (req_id req))]
            @ (case fetch (crxUrl (req_id req)) of
                 Threw e \<Rightarrow> []
               | Responded up \<Rightarrow> if ok up then snd (deliverRaw req up) else []),
          snd (isRateLimited now (callerKey (req_forwardedFor req)) m))"
  by (simp add: GET_raw_def Let_def split: fetched.splits)

lemma deliverRaw_effects: "snd (deliverRaw req up) = [] \<or> snd (deliverRaw req up) = [ReadBody]"
  by (simp add: deliverRaw_def Let_def split: option.splits prod.splits)

lemma catch_body: "res_body (catch e) \<noteq> Json InvalidExtensionId" "res_status (catch e) = 502"
  by (simp_all add: catch_def json_def)

lemma upstreamError_body: "res_body (upstreamError up) \<noteq> Json InvalidExtensionId"
  by (simp add: upstreamError_def NextResponse_json_def catch_def json_def)

lemma upstreamError_status:
  "res_status (upstreamError up)
     = (if 200 \<le> up_status up \<and> up_status up \<le> 599
           \<and> up_status up \<noteq> 204 \<and> up_status up \<noteq> 205 \<and> up_status up \<noteq> 304
        then up_status up else 502)"
  by (simp add: upstreamError_def NextResponse_json_def catch_def json_def)

lemma deliverArchive_body: "res_body (deliverArchive lc req up) \<noteq> Json InvalidExtensionId"
  by (simp add: deliverArchive_def catch_def json_def split: sum.splits option.splits)

lemma deliverRaw_body: "res_body (fst (deliverRaw req up)) \<noteq> Json InvalidExtensionId"
  by (simp add: deliverRaw_def Let_def catch_def json_def limited_stream_def split: option.splits prod.splits)

lemma GET_archive_trace:
  assumes "validId (req_id req)"
  shows "\<exists>rest. fst (snd (GET_archive lc req now fetch m))
                  = RateCheck (callerKey (req_forwardedFor req)) # rest
             \<and> (\<forall>k. RateCheck k \<notin> set rest)
             \<and> (\<forall>u. Fetch u \<in> set rest \<longrightarrow> u = crxUrl (req_id req))"
proof (cases "fst (isRateLimited now (callerKey (req_forwardedFor req)) m)")
  case True
  then show ?thesis using assms by (simp add: GET_archive_limited)
next
  case False
  then show ?thesis using assms
    by (auto simp: GET_archive_fetch split: fetched.splits)
qed

lemma deliverRaw_only_reads: "x \<in> set (snd (deliverRaw req up)) \<Longrightarrow> x = ReadBody"
  using deliverRaw_effects [of req up] by auto

lemma GET_raw_trace:
  assumes "validId (req_id req)"
  shows "\<exists>rest. fst (snd (GET_raw req now fetch m))
                  = RateCheck (callerKey (req_forwardedFor req)) # rest
             \<and> (\<forall>k. RateCheck k \<notin> set rest)
             \<and> (\<forall>u. Fetch u \<in> set rest \<longrightarrow> u = crxUrl (req_id req))"
proof (cases "fst (isRateLimited now (callerKey (req_forwardedFor req)) m)")
  case True
  then show ?thesis using assms by (simp add: GET_raw_limited)
next
  case False
  then show ?thesis using assms
    by (auto simp: GET_raw_fetch split: fetched.splits dest: deliverRaw_only_reads)
qed

lemma GET_archive_state:
  "validId (req_id req) \<Longrightarrow>
     snd (snd (GET_archive lc req now fetch m))
       = snd (isRateLimited now (callerKey (req_forwardedFor req)) m)"
  by (cases "fst (isRateLimited now (callerKey (req_forwardedFor req)) m)")
     (simp_all add: GET_archive_limited GET_archive_fetch)

lemma GET_raw_state:
  "validId (req_id req) \<Longrightarrow>
     snd (snd (GET_raw req now fetch m))
       = snd (isRateLimited now (callerKey (req_forwardedFor req)) m)"
  by (cases "fst (isRateLimited now (callerKey (req_forwardedFor req)) m)")
     (simp_all add: GET_raw_limited GET_raw_fetch)

lemma GET_archive_accepts:
  "validId (req_id req) \<Longrightarrow> res_body (fst (GET_archive lc req now fetch m)) \<noteq> Json InvalidExtensionId"
  by (cases "fst (isRateLimited now (callerKey (req_forwardedFor req)) m)")
     (simp_all add: GET_archive_limited GET_archive_fetch json_def catch_body upstreamError_body
        deliverArchive_body split: fetched.splits)

lemma GET_raw_accepts:
  "validId (req_id req) \<Longrightarrow> res_body (fst (GET_raw req now fetch m)) \<noteq> Json InvalidExtensionId"
  by (cases "fst (isRateLimited now (callerKey (req_forwardedFor req)) m)")
     (simp_all add: GET_raw_limited GET_raw_fetch json_def catch_body upstreamError_body
        deliverRaw_body split: fetched.splits)

lemma validId_lower: "validId ''abcdefghijklmnopabcdefghijklmnop''"
  by code_simp

lemma validId_upper: "\<not> validId ''ABCDEFGHIJKLMNOPABCDEFGHIJKLMNOP''"
  by code_simp

lemma deliverRaw_too_large:
  assumes "up_contentLength up = Some h" and "parseInt h = Some n" and "int MAX_CRX_SIZE < n"
  shows "deliverRaw req up = (json FileTooLarge 413 [], [])"
proof -
  have "h \<noteq> []"
    using assms(2) by (auto simp: parseInt_def Let_def)
  then have "contentLengthOf up = Some n"
    using assms(1,2) by (simp add: contentLengthOf_def)
  then show ?thesis
    using assms(3) by (simp add: deliverRaw_def js_gt_def)
qed

lemma deliverArchive_413:
  "res_status (deliverArchive lc req up) = 413
     \<longleftrightarrow> (\<exists>buf. arrayBuffer up = Inr buf \<and> MAX_CRX_SIZE < length buf)"
  by (auto simp: deliverArchive_def catch_def json_def split: sum.splits option.splits)

lemma deliverArchive_ignores_header:
  "deliverArchive lc req (up\<lparr>up_contentLength := h\<rparr>) = deliverArchive lc req up"
  by (simp add: deliverArchive_def arrayBuffer_def)

lemma unknown_not_limited: "\<not> fst (isRateLimited 0 (callerKey None) Map.empty)"
  by (simp add: isRateLimited_def)

lemma parseInt_example: "parseInt ''20971521'' = Some 20971521"
  by code_simp

text \<open>
  C2, as the code has it. Both endpoints test the identifier with the case-sensitive
  pattern: an identifier passes exactly when it has 32 characters, all of them lowercase
  letters \<open>a\<close> to \<open>z\<close>. Every other string (another length, a character that is not a
  letter, or an uppercase letter) is answered with the invalid-identifier response (400)
  with no rate-limit check, no fetch and the rate map untouched. An identifier that
  passes is not answered with the invalid-identifier response and is used as it is: the
  only URL fetched is the template with that identifier.
\<close>

theorem id_validation:
  "(validId (req_id req)
      \<longleftrightarrow> length (req_id req) = 32 \<and> set (req_id req) \<subseteq> set ''abcdefghijklmnopqrstuvwxyz'')
   \<and> (\<not> validId (req_id req) \<longrightarrow>
         GET_archive lc req now fetch m = (json InvalidExtensionId 400 [], [], m)
       \<and> GET_raw req now fetch m = (json InvalidExtensionId 400 [], [], m))
   \<and> (validId (req_id req) \<longrightarrow>
         res_body (fst (GET_archive lc req now fetch m)) \<noteq> Json InvalidExtensionId
       \<and> res_body (fst (GET_raw req now fetch m)) \<noteq> Json InvalidExtensionId
       \<and> (\<forall>u. Fetch u \<in> set (fst (snd (GET_archive lc req now fetch m))) \<longrightarrow> u = crxUrl (req_id req))
       \<and> (\<forall>u. Fetch u \<in> set (fst (snd (GET_raw req now fetch m))) \<longrightarrow> u = crxUrl (req_id req)))"
proof (intro conjI impI)
  show "validId (req_id req)
          \<longleftrightarrow> length (req_id req) = 32 \<and> set (req_id req) \<subseteq> set ''abcdefghijklmnopqrstuvwxyz''"
    by (rule validId_alphabet)
next
  assume "\<not> validId (req_id req)"
  then show "GET_archive lc req now fetch m = (json InvalidExtensionId 400 [], [], m)"
        and "GET_raw req now fetch m = (json InvalidExtensionId 400 [], [], m)"
    by (simp_all add: GET_archive_invalid GET_raw_invalid)
next
  assume v: "validId (req_id req)"
  show "res_body (fst (GET_archive lc req now fetch m)) \<noteq> Json InvalidExtensionId"
    using v by (rule GET_archive_accepts)
  show "res_body (fst (GET_raw req now fetch m)) \<noteq> Json InvalidExtensionId"
    using v by (rule GET_raw_accepts)
  show "\<forall>u. Fetch u \<in> set (fst (snd (GET_archive lc req now fetch m))) \<longrightarrow> u = crxUrl (req_id req)"
    using GET_archive_trace [OF v, of lc now fetch m] by auto
  show "\<forall>u. Fetch u \<in> set (fst (snd (GET_raw req now fetch m))) \<longrightarrow> u = crxUrl (req_id req)"
    using GET_raw_trace [OF v, of now fetch m] by auto
qed

theorem id_validation_witness:
  "\<not> validId (req_id \<lparr>req_id = ''ABCDEFGHIJKLMNOPABCDEFGHIJKLMNOP'',
                       req_forwardedFor = None, req_name = None\<rparr>)
   \<and> GET_archive (\<lambda>s. s) \<lparr>req_id = ''ABCDEFGHIJKLMNOPABCDEFGHIJKLMNOP'',
                   req_forwardedFor = None, req_name = None\<rparr> 0 (\<lambda>u. Threw OtherError) Map.empty
       = (json InvalidExtensionId 400 [], [], Map.empty)
   \<and> validId (req_id \<lparr>req_id = ''abcdefghijklmnopabcdefghijklmnop'',
                     req_forwardedFor = None, req_name = None\<rparr>)
   \<and> res_body (fst (GET_raw \<lparr>req_id = ''abcdefghijklmnopabcdefghijklmnop'',
                               req_forwardedFor = None, req_name = None\<rparr>
                        0 (\<lambda>u. Threw OtherError) Map.empty)) \<noteq> Json InvalidExtensionId"
  using id_validation [of "\<lparr>req_id = ''ABCDEFGHIJKLMNOPABCDEFGHIJKLMNOP'',
                            req_forwardedFor = None, req_name = None\<rparr>"
                          "\<lambda>s. s" 0 "\<lambda>u. Threw OtherError" Map.empty]
        id_validation [of "\<lparr>req_id = ''abcdefghijklmnopabcdefghijklmnop'',
                            req_forwardedFor = None, req_name = None\<rparr>"
                          "\<lambda>s. s" 0 "\<lambda>u. Threw OtherError" Map.empty]
        validId_lower validId_upper
  by simp

text \<open>
  C2 as stated fails: 32 uppercase letters are rejected with 400 by both endpoints, even
  with an upstream that would answer.
\<close>

theorem uppercase_id_counterexample:
  "length ''ABCDEFGHIJKLMNOPABCDEFGHIJKLMNOP'' = 32
   \<and> list_all upper_AZ ''ABCDEFGHIJKLMNOPABCDEFGHIJKLMNOP''
   \<and> GET_archive (\<lambda>s. s) \<lparr>req_id = ''ABCDEFGHIJKLMNOPABCDEFGHIJKLMNOP'',
                   req_forwardedFor = None, req_name = None\<rparr> 0
        (\<lambda>u. Responded \<lparr>up_status = 200, up_contentLength = None,
                         up_body = Some ([[0x50, 0x4b, 0x03, 0x04]], None)\<rparr>) Map.empty
       = (json InvalidExtensionId 400 [], [], Map.empty)
   \<and> GET_raw \<lparr>req_id = ''ABCDEFGHIJKLMNOPABCDEFGHIJKLMNOP'',
               req_forwardedFor = None, req_name = None\<rparr> 0
        (\<lambda>u. Responded \<lparr>up_status = 200, up_contentLength = None,
                         up_body = Some ([[0x50, 0x4b, 0x03, 0x04]], None)\<rparr>) Map.empty
       = (json InvalidExtensionId 400 [], [], Map.empty)"
proof -
  have "list_all upper_AZ ''ABCDEFGHIJKLMNOPABCDEFGHIJKLMNOP''"
    by code_simp
  then show ?thesis
    using validId_upper by (simp add: GET_archive_def GET_raw_def)
qed

text \<open>
  C3, as the code has it. Take a request with a valid identifier that is not rate limited
  and an upstream that answers with a success status. On the raw-container endpoint, a
  declared \<open>Content-Length\<close> above 20 MiB gives 413 without the body being read. The
  derived-archive endpoint never looks at the declared length: it always reads the body,
  answers 413 exactly when the bytes it has read number more than 20 MiB, and its answer
  is the same whatever the \<open>Content-Length\<close> header says.
\<close>

theorem content_length_guard:
  assumes "validId (req_id req)"
      and "\<not> fst (isRateLimited now (callerKey (req_forwardedFor req)) m)"
      and "fetch (crxUrl (req_id req)) = Responded up"
      and "ok up"
  shows "(\<forall>h n. up_contentLength up = Some h \<and> parseInt h = Some n \<and> 20 * 1024 * 1024 < n \<longrightarrow>
            res_status (fst (GET_raw req now fetch m)) = 413
            \<and> ReadBody \<notin> set (fst (snd (GET_raw req now fetch m))))
       \<and> ReadBody \<in> set (fst (snd (GET_archive lc req now fetch m)))
       \<and> (res_status (fst (GET_archive lc req now fetch m)) = 413
            \<longleftrightarrow> (\<exists>buf. arrayBuffer up = Inr buf \<and> 20 * 1024 * 1024 < length buf))
       \<and> (\<forall>h. fst (GET_archive lc req now (\<lambda>u. Responded (up\<lparr>up_contentLength := h\<rparr>)) m)
                = fst (GET_archive lc req now fetch m))"
proof (intro conjI allI impI)
  fix h n
  assume "up_contentLength up = Some h \<and> parseInt h = Some n \<and> 20 * 1024 * 1024 < n"
  then have "deliverRaw req up = (json FileTooLarge 413 [], [])"
    using deliverRaw_too_large [of up h n req] by (simp add: MAX_CRX_SIZE_def)
  then show "res_status (fst (GET_raw req now fetch m)) = 413"
        and "ReadBody \<notin> set (fst (snd (GET_raw req now fetch m)))"
    using assms by (simp_all add: GET_raw_fetch json_def)
next
  show "ReadBody \<in> set (fst (snd (GET_archive lc req now fetch m)))"
    using assms by (simp add: GET_archive_fetch)
  show "res_status (fst (GET_archive lc req now fetch m)) = 413
          \<longleftrightarrow> (\<exists>buf. arrayBuffer up = Inr buf \<and> 20 * 1024 * 1024 < length buf)"
    using assms deliverArchive_413 [of lc req up] by (simp add: GET_archive_fetch MAX_CRX_SIZE_def)
  fix h
  have "ok (up\<lparr>up_contentLength := h\<rparr>)"
    using assms(4) by (simp add: ok_def)
  then show "fst (GET_archive lc req now (\<lambda>u. Responded (up\<lparr>up_contentLength := h\<rparr>)) m)
               = fst (GET_archive lc req now fetch m)"
    using assms by (simp add: GET_archive_fetch deliverArchive_ignores_header)
qed

theorem content_length_guard_witness:
  "validId (req_id \<lparr>req_id = ''abcdefghijklmnopabcdefghijklmnop'',
                    req_forwardedFor = None, req_name = None\<rparr>)
   \<and> \<not> fst (isRateLimited 0 (callerKey None) Map.empty)
   \<and> ok \<lparr>up_status = 200, up_contentLength = Some ''20971521'', up_body = Some ([[1]], None)\<rparr>
   \<and> parseInt ''20971521'' = Some 20971521
   \<and> res_status (fst (GET_raw \<lparr>req_id = ''abcdefghijklmnopabcdefghijklmnop'',
                                req_forwardedFor = None, req_name = None\<rparr> 0
        (\<lambda>u. Responded \<lparr>up_status = 200, up_contentLength = Some ''20971521'',
                         up_body = Some ([[1]], None)\<rparr>) Map.empty)) = 413
   \<and> ReadBody \<notin> set (fst (snd (GET_raw \<lparr>req_id = ''abcdefghijklmnopabcdefghijklmnop'',
                                req_forwardedFor = None, req_name = None\<rparr> 0
        (\<lambda>u. Responded \<lparr>up_status = 200, up_contentLength = Some ''20971521'',
                         up_body = Some ([[1]], None)\<rparr>) Map.empty)))"
proof -
  let ?req = "\<lparr>req_id = ''abcdefghijklmnopabcdefghijklmnop'',
               req_forwardedFor = None, req_name = None\<rparr>"
  let ?up = "\<lparr>up_status = 200, up_contentLength = Some ''20971521'',
              up_body = Some ([[1 :: byte]], None)\<rparr>"
  have h1: "validId (req_id ?req)"
    using validId_lower by simp
  have h2: "\<not> fst (isRateLimited 0 (callerKey (req_forwardedFor ?req)) Map.empty)"
    using unknown_not_limited by simp
  have h3: "(\<lambda>u. Responded ?up) (crxUrl (req_id ?req)) = Responded ?up"
    by simp
  have h4: "ok ?up"
    by (simp add: ok_def)
  have h5: "up_contentLength ?up = Some ''20971521'' \<and> parseInt ''20971521'' = Some 20971521
              \<and> (20 * 1024 * 1024 < (20971521 :: int))"
    using parseInt_example by simp
  have r: "res_status (fst (GET_raw ?req 0 (\<lambda>u. Responded ?up) Map.empty)) = 413
         \<and> ReadBody \<notin> set (fst (snd (GET_raw ?req 0 (\<lambda>u. Responded ?up) Map.empty)))"
    using content_length_guard [of ?req 0 Map.empty "\<lambda>u. Responded ?up" ?up,
            OF h1 h2 h3 h4, THEN conjunct1, rule_format, OF h5] .
  show ?thesis
    using h1 unknown_not_limited h4 parseInt_example r by simp
qed

text \<open>
  C3 as stated fails on the derived-archive endpoint: with a declared \<open>Content-Length\<close>
  of 20 MiB + 1 and a body of that size the answer is 413, but only after the body has
  been read; with the same declared length and a 5-byte body the answer is 200.
\<close>

theorem archive_reads_body_counterexample:
  "parseInt ''20971521'' = Some 20971521 \<and> (20 * 1024 * 1024 < (20971521 :: int))
   \<and> res_status (fst (GET_archive (\<lambda>s. s) \<lparr>req_id = ''abcdefghijklmnopabcdefghijklmnop'',
                                   req_forwardedFor = None, req_name = None\<rparr> 0
        (\<lambda>u. Responded \<lparr>up_status = 200, up_contentLength = Some ''20971521'',
                         up_body = Some ([replicate 20971521 0], None)\<rparr>) Map.empty)) = 413
   \<and> ReadBody \<in> set (fst (snd (GET_archive (\<lambda>s. s) \<lparr>req_id = ''abcdefghijklmnopabcdefghijklmnop'',
                                   req_forwardedFor = None, req_name = None\<rparr> 0
        (\<lambda>u. Responded \<lparr>up_status = 200, up_contentLength = Some ''20971521'',
                         up_body = Some ([replicate 20971521 0], None)\<rparr>) Map.empty)))
   \<and> res_status (fst (GET_archive (\<lambda>s. s) \<lparr>req_id = ''abcdefghijklmnopabcdefghijklmnop'',
                                   req_forwardedFor = None, req_name = None\<rparr> 0
        (\<lambda>u. Responded \<lparr>up_status = 200, up_contentLength = Some ''20971521'',
                         up_body = Some ([[0x50, 0x4b], [0x03, 0x04, 0x00]], None)\<rparr>) Map.empty)) = 200"
proof -
  let ?req = "\<lparr>req_id = ''abcdefghijklmnopabcdefghijklmnop'',
               req_forwardedFor = None, req_name = None\<rparr>"
  have v: "validId (req_id ?req)"
    using validId_lower by simp
  have l: "\<not> fst (isRateLimited 0 (callerKey (req_forwardedFor ?req)) Map.empty)"
    using unknown_not_limited by simp
  have z: "stripCrxHeader [0x50, 0x4b, 0x03, 0x04, 0x00] = Inr (Some [0x50, 0x4b, 0x03, 0x04, 0x00])"
    by (simp add: stripCrxHeader_def at_def scanZip.simps [of _ 0] subarray_def)
  show ?thesis
    using parseInt_example
    by (simp add: GET_archive_fetch [OF v l] ok_def deliverArchive_def arrayBuffer_def
          MAX_CRX_SIZE_def z json_def)
qed

text \<open>
  C4, as the code has it. Take a request with a valid identifier that is not rate limited
  and an upstream that answers with a non-success status. Both endpoints answer with the
  upstream's own status (and do not read the body); the answer is 502 only when the
  upstream's status is 502 itself or one that a response with a body cannot carry (304,
  or a status outside 200..599), where the constructor throws into the \<open>catch\<close> block.
\<close>

theorem upstream_status_propagated:
  assumes "validId (req_id req)"
      and "\<not> fst (isRateLimited now (callerKey (req_forwardedFor req)) m)"
      and "fetch (crxUrl (req_id req)) = Responded up"
      and "\<not> ok up"
  shows "res_status (fst (GET_archive lc req now fetch m))
           = (if 200 \<le> up_status up \<and> up_status up \<le> 599 \<and> up_status up \<noteq> 304
              then up_status up else 502)
       \<and> res_status (fst (GET_raw req now fetch m))
           = (if 200 \<le> up_status up \<and> up_status up \<le> 599 \<and> up_status up \<noteq> 304
              then up_status up else 502)
       \<and> ReadBody \<notin> set (fst (snd (GET_archive lc req now fetch m)))
       \<and> ReadBody \<notin> set (fst (snd (GET_raw req now fetch m)))"
proof -
  have "up_status up \<noteq> 204" and "up_status up \<noteq> 205"
    using assms(4) by (auto simp: ok_def)
  then have "res_status (upstreamError up)
               = (if 200 \<le> up_status up \<and> up_status up \<le> 599 \<and> up_status up \<noteq> 304
                  then up_status up else 502)"
    by (simp add: upstreamError_status)
  then show ?thesis
    using assms by (simp add: GET_archive_fetch GET_raw_fetch)
qed

theorem upstream_status_propagated_witness:
  "validId (req_id \<lparr>req_id = ''abcdefghijklmnopabcdefghijklmnop'',
                    req_forwardedFor = None, req_name = None\<rparr>)
   \<and> \<not> fst (isRateLimited 0 (callerKey None) Map.empty)
   \<and> \<not> ok \<lparr>up_status = 503, up_contentLength = None, up_body = None\<rparr>
   \<and> res_status (fst (GET_archive (\<lambda>s. s) \<lparr>req_id = ''abcdefghijklmnopabcdefghijklmnop'',
                                   req_forwardedFor = None, req_name = None\<rparr> 0
        (\<lambda>u. Responded \<lparr>up_status = 503, up_contentLength = None, up_body = None\<rparr>)
        Map.empty)) = 503"
proof -
  let ?req = "\<lparr>req_id = ''abcdefghijklmnopabcdefghijklmnop'',
               req_forwardedFor = None, req_name = None\<rparr>"
  let ?up = "\<lparr>up_status = 503, up_contentLength = None,
              up_body = (None :: (bytes list \<times> js_error option) option)\<rparr>"
  have h1: "validId (req_id ?req)"
    using validId_lower by simp
  have h2: "\<not> fst (isRateLimited 0 (callerKey (req_forwardedFor ?req)) Map.empty)"
    using unknown_not_limited by simp
  have h3: "(\<lambda>u. Responded ?up) (crxUrl (req_id ?req)) = Responded ?up"
    by simp
  have h4: "\<not> ok ?up"
    by (simp add: ok_def)
  have "res_status (fst (GET_archive (\<lambda>s. s) ?req 0 (\<lambda>u. Responded ?up) Map.empty)) = 503"
    using upstream_status_propagated [of ?req 0 Map.empty "\<lambda>u. Responded ?up" ?up "\<lambda>s. s",
            OF h1 h2 h3 h4, THEN conjunct1]
    by simp
  then show ?thesis
    using h1 unknown_not_limited h4 by simp
qed

text \<open>
  C4 as stated fails: an upstream 404 is answered with 404, not 502, by both endpoints.
\<close>

theorem upstream_404_counterexample:
  "\<not> ok \<lparr>up_status = 404, up_contentLength = None, up_body = None\<rparr>
   \<and> res_status (fst (GET_archive (\<lambda>s. s) \<lparr>req_id = ''abcdefghijklmnopabcdefghijklmnop'',
                                   req_forwardedFor = None, req_name = None\<rparr> 0
        (\<lambda>u. Responded \<lparr>up_status = 404, up_contentLength = None, up_body = None\<rparr>)
        Map.empty)) = 404
   \<and> res_status (fst (GET_raw \<lparr>req_id = ''abcdefghijklmnopabcdefghijklmnop'',
                               req_forwardedFor = None, req_name = None\<rparr> 0
        (\<lambda>u. Responded \<lparr>up_status = 404, up_contentLength = None, up_body = None\<rparr>)
        Map.empty)) = 404"
proof -
  let ?req = "\<lparr>req_id = ''abcdefghijklmnopabcdefghijklmnop'',
               req_forwardedFor = None, req_name = None\<rparr>"
  have v: "validId (req_id ?req)"
    using validId_lower by simp
  have l: "\<not> fst (isRateLimited 0 (callerKey (req_forwardedFor ?req)) Map.empty)"
    using unknown_not_limited by simp
  show ?thesis
    by (simp add: GET_archive_fetch [OF v l] GET_raw_fetch [OF v l] ok_def upstreamError_def
          NextResponse_json_def json_def)
qed

text \<open>
  C10. For every request whose identifier passes validation, and whatever the upstream
  does afterwards (the statement holds for every \<open>fetch\<close>: throwing, timing out, any
  status, any body), the rate map the handler leaves is the map after exactly one call of
  \<open>isRateLimited\<close> for the caller key: that key's entry is created (or reinitialised when
  its reset time has passed) with count 1, or else its count is incremented by one; every
  other key keeps its entry. The rate-limit check is the first effect of the handler, so
  it precedes any fetch, and it occurs once.
\<close>

theorem quota_consumed:
  assumes "validId (req_id req)"
  shows "snd (snd (GET_archive lc req now fetch m))
           = snd (isRateLimited now (callerKey (req_forwardedFor req)) m)
       \<and> snd (snd (GET_raw req now fetch m))
           = snd (isRateLimited now (callerKey (req_forwardedFor req)) m)
       \<and> snd (isRateLimited now (callerKey (req_forwardedFor req)) m)
             (callerKey (req_forwardedFor req))
           = Some (case m (callerKey (req_forwardedFor req)) of
                     None \<Rightarrow> \<lparr>count = 1, resetAt = now + RATE_WINDOW_MS\<rparr>
                   | Some e \<Rightarrow>
                       if resetAt e < now then \<lparr>count = 1, resetAt = now + RATE_WINDOW_MS\<rparr>
                       else e\<lparr>count := count e + 1\<rparr>)
       \<and> (\<forall>k. k \<noteq> callerKey (req_forwardedFor req) \<longrightarrow>
             snd (isRateLimited now (callerKey (req_forwardedFor req)) m) k = m k)
       \<and> (\<exists>rest. fst (snd (GET_archive lc req now fetch m))
                    = RateCheck (callerKey (req_forwardedFor req)) # rest
               \<and> (\<forall>k. RateCheck k \<notin> set rest))
       \<and> (\<exists>rest. fst (snd (GET_raw req now fetch m))
                    = RateCheck (callerKey (req_forwardedFor req)) # rest
               \<and> (\<forall>k. RateCheck k \<notin> set rest))"
proof (intro conjI)
  show "snd (snd (GET_archive lc req now fetch m))
          = snd (isRateLimited now (callerKey (req_forwardedFor req)) m)"
    using assms by (rule GET_archive_state)
  show "snd (snd (GET_raw req now fetch m))
          = snd (isRateLimited now (callerKey (req_forwardedFor req)) m)"
    using assms by (rule GET_raw_state)
  show "snd (isRateLimited now (callerKey (req_forwardedFor req)) m)
             (callerKey (req_forwardedFor req))
           = Some (case m (callerKey (req_forwardedFor req)) of
                     None \<Rightarrow> \<lparr>count = 1, resetAt = now + RATE_WINDOW_MS\<rparr>
                   | Some e \<Rightarrow>
                       if resetAt e < now then \<lparr>count = 1, resetAt = now + RATE_WINDOW_MS\<rparr>
                       else e\<lparr>count := count e + 1\<rparr>)"
    by (rule isRateLimited_entry)
  show "\<forall>k. k \<noteq> callerKey (req_forwardedFor req) \<longrightarrow>
             snd (isRateLimited now (callerKey (req_forwardedFor req)) m) k = m k"
    by (simp add: isRateLimited_other)
  show "\<exists>rest. fst (snd (GET_archive lc req now fetch m))
                    = RateCheck (callerKey (req_forwardedFor req)) # rest
               \<and> (\<forall>k. RateCheck k \<notin> set rest)"
    using GET_archive_trace [OF assms, of lc now fetch m] by blast
  show "\<exists>rest. fst (snd (GET_raw req now fetch m))
                    = RateCheck (callerKey (req_forwardedFor req)) # rest
               \<and> (\<forall>k. RateCheck k \<notin> set rest)"
    using GET_raw_trace [OF assms, of now fetch m] by blast
qed

theorem quota_consumed_witness:
  "validId (req_id \<lparr>req_id = ''abcdefghijklmnopabcdefghijklmnop'',
                    req_forwardedFor = Some '' 10.0.0.1 , 10.0.0.2'', req_name = None\<rparr>)
   \<and> snd (snd (GET_archive (\<lambda>s. s) \<lparr>req_id = ''abcdefghijklmnopabcdefghijklmnop'',
                            req_forwardedFor = Some '' 10.0.0.1 , 10.0.0.2'', req_name = None\<rparr>
                 7000 (\<lambda>u. Threw TimeoutError)
                 [''10.0.0.1'' \<mapsto> \<lparr>count = 2, resetAt = 9000\<rparr>])) ''10.0.0.1''
       = Some \<lparr>count = 3, resetAt = 9000\<rparr>"
proof -
  let ?req = "\<lparr>req_id = ''abcdefghijklmnopabcdefghijklmnop'',
               req_forwardedFor = Some '' 10.0.0.1 , 10.0.0.2'', req_name = None\<rparr>"
  let ?m = "[''10.0.0.1'' \<mapsto> \<lparr>count = 2, resetAt = 9000\<rparr>] :: rate_map"
  have h1: "validId (req_id ?req)"
    using validId_lower by simp
  have k: "callerKey (req_forwardedFor ?req) = ''10.0.0.1''"
    by code_simp
  have "snd (snd (GET_archive (\<lambda>s. s) ?req 7000 (\<lambda>u. Threw TimeoutError) ?m))
          = snd (isRateLimited 7000 (callerKey (req_forwardedFor ?req)) ?m)"
    using quota_consumed [OF h1, of "\<lambda>s. s" 7000 "\<lambda>u. Threw TimeoutError" ?m, THEN conjunct1] .
  then have "snd (snd (GET_archive (\<lambda>s. s) ?req 7000 (\<lambda>u. Threw TimeoutError) ?m)) ''10.0.0.1''
               = Some \<lparr>count = 3, resetAt = 9000\<rparr>"
    unfolding k by (simp add: isRateLimited_def)
  then show ?thesis
    using h1 by simp
qed

end
